theory Spec2Isabelle
  imports Main "HOL-Library.Stream"
begin

section \<open>Exceptions\<close>

text \<open>
  The Python exceptions that the modelled code paths can raise. A function that can raise
  returns \<open>error + 'a\<close>, with \<open>Inl\<close> for the exception.
\<close>

datatype error = ValueError | OverflowError | KeyError | AttributeError | IndexError

section \<open>The \<open>phe.paillier\<close> interface\<close>

text \<open>
  Modelled from the spec: the third-party library \<open>phe\<close> (\<open>from phe import paillier\<close>) is
  not part of the sources. It is modelled by its plaintext-level contract, as the spec's
  glossary words it ("scalar multiplication by a public constant \<open>k\<close> yields an encryption
  of \<open>k\<cdot>a\<close>"): an encrypted number records the public key it was made with and the
  residue modulo \<open>n\<close> that it decrypts to. The obfuscating randomness of a ciphertext and
  the number theory behind decryption are not modelled. What is kept of the library:
  the encoding of a Python int as a residue (\<open>max_int = n // 3 - 1\<close>, a scalar outside
  \<open>\<plusminus>max_int\<close> raises \<open>ValueError\<close>), the decoding on decryption (a residue in the
  middle third raises \<open>OverflowError\<close>), and the check that the decrypting key matches.
\<close>

record paillier_public_key =
  pub_n :: int

record paillier_private_key =
  priv_public_key :: paillier_public_key
  priv_p :: int
  priv_q :: int

record encrypted_number =
  enc_public_key :: paillier_public_key
  enc_residue :: int

definition max_int :: "paillier_public_key \<Rightarrow> int" where
  "max_int pk = pub_n pk div 3 - 1"

text \<open>\<open>paillier.generate_paillier_keypair()\<close>, given the two primes it sampled.\<close>

definition generate_paillier_keypair ::
  "int \<Rightarrow> int \<Rightarrow> paillier_public_key \<times> paillier_private_key" where
  "generate_paillier_keypair p q =
     (let pk = \<lparr>pub_n = p * q\<rparr>
      in (pk, \<lparr>priv_public_key = pk, priv_p = p, priv_q = q\<rparr>))"

text \<open>\<open>EncodedNumber.encode\<close> on a Python int (exponent 0).\<close>

definition encode :: "paillier_public_key \<Rightarrow> int \<Rightarrow> error + int" where
  "encode pk scalar =
     (if \<bar>scalar\<bar> > max_int pk then Inl ValueError else Inr (scalar mod pub_n pk))"

text \<open>\<open>PaillierPublicKey.encrypt\<close>.\<close>

definition encrypt :: "paillier_public_key \<Rightarrow> int \<Rightarrow> error + encrypted_number" where
  "encrypt pk v =
     (case encode pk v of
        Inl e \<Rightarrow> Inl e
      | Inr m \<Rightarrow> Inr \<lparr>enc_public_key = pk, enc_residue = m\<rparr>)"

text \<open>\<open>EncryptedNumber.__mul__\<close> with a Python int.\<close>

definition enc_mul :: "encrypted_number \<Rightarrow> int \<Rightarrow> error + encrypted_number" where
  "enc_mul ct scalar =
     (case encode (enc_public_key ct) scalar of
        Inl e \<Rightarrow> Inl e
      | Inr m \<Rightarrow> Inr (ct\<lparr>enc_residue := (enc_residue ct * m) mod pub_n (enc_public_key ct)\<rparr>))"

text \<open>\<open>EncodedNumber.decode\<close> (exponent 0).\<close>

definition decode :: "paillier_public_key \<Rightarrow> int \<Rightarrow> error + int" where
  "decode pk e =
     (if e \<ge> pub_n pk then Inl ValueError
      else if e \<le> max_int pk then Inr e
      else if e \<ge> pub_n pk - max_int pk then Inr (e - pub_n pk)
      else Inl OverflowError)"

text \<open>\<open>PaillierPrivateKey.decrypt\<close>.\<close>

definition decrypt :: "paillier_private_key \<Rightarrow> encrypted_number \<Rightarrow> error + int" where
  "decrypt sk ct =
     (if priv_public_key sk \<noteq> enc_public_key ct then Inl ValueError
      else decode (enc_public_key ct) (enc_residue ct))"

section \<open>The \<open>random\<close> module\<close>

text \<open>
  The random source is a stream of raw draws; each call of \<open>random.choice\<close> or
  \<open>random.randint\<close> in the placement loop takes the next draw. \<open>randint lo hi\<close> maps a raw
  draw onto \<open>[lo, hi]\<close> (every value of the range is the image of some draw);
  \<open>choice\<close> maps it onto \<open>[True, False]\<close>.
\<close>

definition randint :: "nat \<Rightarrow> nat \<Rightarrow> nat \<Rightarrow> nat" where
  "randint lo hi x = lo + x mod (hi - lo + 1)"

definition choice :: "nat \<Rightarrow> bool" where
  "choice x = (x mod 2 = 0)"

section \<open>Ship\<close>

type_synonym coord = "nat \<times> nat"

record ship =
  ship_name :: string
  ship_size :: nat
  coordinates :: "coord list"
  hits :: "coord set"

definition Ship :: "string \<Rightarrow> nat \<Rightarrow> ship" where
  "Ship name sz = \<lparr>ship_name = name, ship_size = sz, coordinates = [], hits = {}\<rparr>"

definition is_sunk :: "ship \<Rightarrow> bool" where
  "is_sunk s = (card (hits s) = ship_size s)"

text \<open>\<open>Ship.place\<close>: the ship with its coordinate list replaced (the list is also returned
  by the Python method; it is \<open>coordinates\<close> of the result).\<close>

definition place :: "ship \<Rightarrow> nat \<Rightarrow> nat \<Rightarrow> bool \<Rightarrow> ship" where
  "place s start_row start_col horizontal =
     s\<lparr>coordinates :=
         map (\<lambda>i. if horizontal then (start_row, start_col + i) else (start_row + i, start_col))
             [0..<ship_size s]\<rparr>"

section \<open>Player\<close>

record player =
  player_name :: string
  board :: "int list list"
  guess_board :: "char list list"
  ships :: "ship list"
  encrypted_board :: "coord \<rightharpoonup> encrypted_number"
  public_key :: "paillier_public_key option"
  private_key :: "paillier_private_key option"
  hits_received :: nat
  total_ship_cells :: nat

definition Player :: "string \<Rightarrow> player" where
  "Player name =
     (let fleet = [Ship ''Carrier'' 5, Ship ''Battleship'' 4, Ship ''Cruiser'' 3,
                   Ship ''Submarine'' 2, Ship ''Destroyer'' 2]
      in \<lparr>player_name = name,
          board = replicate 10 (replicate 10 0),
          guess_board = replicate 10 (replicate 10 (CHR '' '')),
          ships = fleet,
          encrypted_board = Map.empty,
          public_key = None,
          private_key = None,
          hits_received = 0,
          total_ship_cells = sum_list (map ship_size fleet)\<rparr>)"

definition generate_keys :: "player \<Rightarrow> int \<Rightarrow> int \<Rightarrow> player" where
  "generate_keys self p q =
     (let (pk, sk) = generate_paillier_keypair p q
      in self\<lparr>public_key := Some pk, private_key := Some sk\<rparr>)"

subsection \<open>Placement\<close>

text \<open>\<open>self.board[r][c] = 1\<close>.\<close>

definition mark_cell :: "int list list \<Rightarrow> coord \<Rightarrow> int list list" where
  "mark_cell b rc = (case rc of (r, c) \<Rightarrow> b[r := (b ! r)[c := 1]])"

text \<open>
  \<open>all(self.board[r][c] == 0 for r, c in coords)\<close>: the cells are read in order, the
  first cell that is not 0 ends the scan, and a read outside the lists raises.
\<close>

fun all_water :: "int list list \<Rightarrow> coord list \<Rightarrow> error + bool" where
  "all_water b [] = Inr True"
| "all_water b ((r, c) # coords) =
     (if r \<ge> length b \<or> c \<ge> length (b ! r) then Inl IndexError
      else if b ! r ! c = 0 then all_water b coords
      else Inr False)"

text \<open>
  The three random calls of one iteration of the placement loop: the orientation, then
  the row and the column in the order the branch calls them.
\<close>

definition sample_position :: "ship \<Rightarrow> nat stream \<Rightarrow> bool \<times> nat \<times> nat" where
  "sample_position s rng =
     (let horizontal = choice (shd rng);
          a = shd (stl rng);
          b = shd (stl (stl rng))
      in if horizontal then (horizontal, randint 0 9 a, randint 0 (10 - ship_size s) b)
         else (horizontal, randint 0 (10 - ship_size s) a, randint 0 9 b))"

text \<open>
  \<open>Player.place_ship_random\<close>. The \<open>while not placed\<close> loop has no other exit than a
  successful placement (or an exception), so the result is an option: \<open>None\<close> is the loop
  running forever. A ship longer than 10 makes \<open>random.randint(0, 10 - ship.size)\<close> raise
  \<open>ValueError\<close> (empty range). The ship object is the one held in \<open>self.ships\<close>; the
  model returns the updated ship next to the updated player and the rest of the random
  stream, and \<open>setup_board\<close> stores it back. The cells written are the cells that
  \<open>all_water\<close> has just read, so no write is out of range.
\<close>

partial_function (option) place_ship_random ::
  "player \<Rightarrow> ship \<Rightarrow> nat stream \<Rightarrow> (error + player \<times> ship \<times> nat stream) option" where
  "place_ship_random self s rng =
     (if ship_size s > 10 then Some (Inl ValueError)
      else let (horizontal, row, col) = sample_position s rng;
               s' = place s row col horizontal;
               coords = coordinates s'
           in case all_water (board self) coords of
                Inl e \<Rightarrow> Some (Inl e)
              | Inr placed \<Rightarrow>
                  if placed
                  then Some (Inr (self\<lparr>board := foldl mark_cell (board self) coords\<rparr>,
                                  s', sdrop 3 rng))
                  else place_ship_random self s' (sdrop 3 rng))"

text \<open>\<open>Player.setup_board\<close>: the loop \<open>for ship in self.ships\<close>, then the method.\<close>

fun place_fleet ::
  "player \<Rightarrow> ship list \<Rightarrow> nat stream \<Rightarrow> (error + player \<times> ship list \<times> nat stream) option" where
  "place_fleet self [] rng = Some (Inr (self, [], rng))"
| "place_fleet self (s # rest) rng =
     (case place_ship_random self s rng of
        None \<Rightarrow> None
      | Some (Inl e) \<Rightarrow> Some (Inl e)
      | Some (Inr (self1, s1, rng1)) \<Rightarrow>
          (case place_fleet self1 rest rng1 of
             None \<Rightarrow> None
           | Some (Inl e) \<Rightarrow> Some (Inl e)
           | Some (Inr (self2, rest2, rng2)) \<Rightarrow> Some (Inr (self2, s1 # rest2, rng2))))"

definition setup_board :: "player \<Rightarrow> nat stream \<Rightarrow> (error + player \<times> nat stream) option" where
  "setup_board self rng =
     (case place_fleet self (ships self) rng of
        None \<Rightarrow> None
      | Some (Inl e) \<Rightarrow> Some (Inl e)
      | Some (Inr (self', fleet, rng')) \<Rightarrow> Some (Inr (self'\<lparr>ships := fleet\<rparr>, rng')))"

subsection \<open>Encrypting the board\<close>

text \<open>
  \<open>Player.encrypt_board\<close>: the two nested \<open>range(10)\<close> loops visit the cells in row-major
  order. \<open>self.public_key.encrypt\<close> is looked up before its argument is evaluated.
\<close>

fun encrypt_cells :: "player \<Rightarrow> coord list \<Rightarrow> error + player" where
  "encrypt_cells self [] = Inr self"
| "encrypt_cells self ((row, col) # rest) =
     (case public_key self of
        None \<Rightarrow> Inl AttributeError
      | Some pk \<Rightarrow>
          if row \<ge> length (board self) \<or> col \<ge> length (board self ! row) then Inl IndexError
          else (case encrypt pk (board self ! row ! col) of
                  Inl e \<Rightarrow> Inl e
                | Inr ct \<Rightarrow>
                    encrypt_cells
                      (self\<lparr>encrypted_board := (encrypted_board self)((row, col) \<mapsto> ct)\<rparr>)
                      rest))"

definition encrypt_board :: "player \<Rightarrow> error + player" where
  "encrypt_board self = encrypt_cells self (List.product [0..<10] [0..<10])"

subsection \<open>The hit check\<close>

text \<open>
  The two player objects of \<open>main\<close> live in a store indexed by reference, so that a method
  called on one player with the other as argument says which object it writes.
\<close>

datatype pref = Player1 | Player2

type_synonym store = "pref \<Rightarrow> player"

text \<open>
  Lines 109 to 116 of \<open>check_hit_homomorphic\<close>: the stored ciphertext, multiplied by the
  blinding factor and decrypted with the player's own private key. The blinding factor is
  the value that \<open>random.randint(1, 999999)\<close> returned.
\<close>

definition decrypted_val :: "player \<Rightarrow> nat \<Rightarrow> nat \<Rightarrow> int \<Rightarrow> error + int" where
  "decrypted_val self guess_row guess_col blinding_factor =
     (case encrypted_board self (guess_row, guess_col) of
        None \<Rightarrow> Inl KeyError
      | Some encrypted_position \<Rightarrow>
          (case enc_mul encrypted_position blinding_factor of
             Inl e \<Rightarrow> Inl e
           | Inr encrypted_result \<Rightarrow>
               (case private_key self of
                  None \<Rightarrow> Inl AttributeError
                | Some sk \<Rightarrow> decrypt sk encrypted_result)))"

text \<open>
  The loop \<open>for ship in self.ships\<close> of the hit branch: the first ship whose coordinates
  hold the guess gets it added to its hits; the loop then returns "sunk" or breaks. When
  no ship holds the guess the loop runs out and "hit" is returned all the same.
\<close>

fun mark_ship :: "ship list \<Rightarrow> coord \<Rightarrow> ship list \<times> string \<times> string option" where
  "mark_ship [] g = ([], ''hit'', None)"
| "mark_ship (s # rest) g =
     (if g \<in> set (coordinates s)
      then (let s' = s\<lparr>hits := insert g (hits s)\<rparr>
            in (s' # rest, if is_sunk s' then (''sunk'', Some (ship_name s')) else (''hit'', None)))
      else (let (rest', res) = mark_ship rest g in (s # rest', res)))"

definition check_hit_homomorphic ::
  "store \<Rightarrow> pref \<Rightarrow> nat \<Rightarrow> nat \<Rightarrow> pref \<Rightarrow> int \<Rightarrow> error + (string \<times> string option) \<times> store" where
  "check_hit_homomorphic st self guess_row guess_col opp blinding_factor =
     (case decrypted_val (st self) guess_row guess_col blinding_factor of
        Inl e \<Rightarrow> Inl e
      | Inr v \<Rightarrow>
          if v \<noteq> 0
          then (let st1 = st(self := (st self)\<lparr>hits_received := hits_received (st self) + 1\<rparr>);
                    (fleet, res) = mark_ship (ships (st1 self)) (guess_row, guess_col)
                in Inr (res, st1(self := (st1 self)\<lparr>ships := fleet\<rparr>)))
          else Inr ((''miss'', None), st))"

definition has_lost :: "player \<Rightarrow> bool" where
  "has_lost self = (hits_received self \<ge> total_ship_cells self)"

section \<open>The game loop of \<open>main\<close>\<close>

record main_state =
  players :: store
  turn :: nat
  game_over :: bool
  current_player :: pref
  opponent :: pref

text \<open>
  The setup phase of \<open>main\<close>, given the primes of the two key generations and the random
  stream of the placements.
\<close>

definition main_setup :: "int \<times> int \<Rightarrow> int \<times> int \<Rightarrow> nat stream \<Rightarrow> (error + main_state) option" where
  "main_setup k1 k2 rng =
     (let player1 = generate_keys (Player ''Alice'') (fst k1) (snd k1);
          player2 = generate_keys (Player ''Bob'') (fst k2) (snd k2)
      in case setup_board player1 rng of
           None \<Rightarrow> None
         | Some (Inl e) \<Rightarrow> Some (Inl e)
         | Some (Inr (player1, rng1)) \<Rightarrow>
             (case setup_board player2 rng1 of
                None \<Rightarrow> None
              | Some (Inl e) \<Rightarrow> Some (Inl e)
              | Some (Inr (player2, rng2)) \<Rightarrow>
                  (case encrypt_board player1 of
                     Inl e \<Rightarrow> Some (Inl e)
                   | Inr player1 \<Rightarrow>
                       (case encrypt_board player2 of
                          Inl e \<Rightarrow> Some (Inl e)
                        | Inr player2 \<Rightarrow>
                            Some (Inr \<lparr>players = (\<lambda>r. case r of Player1 \<Rightarrow> player1
                                                               | Player2 \<Rightarrow> player2),
                                       turn = 0,
                                       game_over = False,
                                       current_player = Player1,
                                       opponent = Player2\<rparr>)))))"

text \<open>\<open>current_player.guess_board[guess_row][guess_col] = ch\<close>.\<close>

definition set_guess :: "player \<Rightarrow> nat \<Rightarrow> nat \<Rightarrow> char \<Rightarrow> player" where
  "set_guess p r c ch = p\<lparr>guess_board := (guess_board p)[r := (guess_board p ! r)[c := ch]]\<rparr>"

text \<open>
  One iteration of the \<open>while not game_over\<close> loop, given the guess that
  \<open>get_player_guess\<close> returned and the blinding factor sampled by the hit check.
\<close>

definition game_turn :: "main_state \<Rightarrow> nat \<times> nat \<Rightarrow> int \<Rightarrow> error + main_state" where
  "game_turn s guess blinding_factor =
     (let (guess_row, guess_col) = guess;
          s = s\<lparr>turn := turn s + 1\<rparr>;
          cur = players s (current_player s)
      in if guess_row \<ge> length (guess_board cur) \<or>
            guess_col \<ge> length (guess_board cur ! guess_row) then Inl IndexError
         else if guess_board cur ! guess_row ! guess_col \<noteq> CHR '' '' then Inr s
         else
           (case check_hit_homomorphic (players s) (opponent s) guess_row guess_col
                   (current_player s) blinding_factor of
              Inl e \<Rightarrow> Inl e
            | Inr ((result, sunk_name), st) \<Rightarrow>
                (let ch = (if result = ''hit'' then CHR ''X''
                           else if result = ''sunk'' then CHR ''X'' else CHR ''O'');
                     st = st(current_player s :=
                               set_guess (st (current_player s)) guess_row guess_col ch);
                     s = s\<lparr>players := st\<rparr>
                 in if has_lost (st (opponent s)) then Inr (s\<lparr>game_over := True\<rparr>)
                    else Inr (s\<lparr>current_player := opponent s,
                                opponent := current_player s\<rparr>))))"

text \<open>
  The states of \<open>main\<close> at the head of the game loop: the state after the setup phase,
  and the state after each iteration run while the game is not over, with a guess in the
  range that \<open>get_player_guess\<close> returns and a blinding factor in the range sampled.
\<close>

inductive reachable :: "main_state \<Rightarrow> bool" where
  start: "main_setup k1 k2 rng = Some (Inr s) \<Longrightarrow> reachable s"
| next_turn: "reachable s \<Longrightarrow> \<not> game_over s \<Longrightarrow> guess_row \<le> 9 \<Longrightarrow> guess_col \<le> 9 \<Longrightarrow>
     1 \<le> k \<Longrightarrow> k \<le> 999999 \<Longrightarrow> game_turn s (guess_row, guess_col) k = Inr s' \<Longrightarrow>
     reachable s'"

section \<open>Notions used in the statements\<close>

text \<open>The shape of the two boards of a player: ten rows of ten cells.\<close>

definition wf_grid :: "'a list list \<Rightarrow> bool" where
  "wf_grid g = (length g = 10 \<and> (\<forall>row \<in> set g. length row = 10))"

text \<open>The number of board cells marked 1.\<close>

definition occupied_cells :: "int list list \<Rightarrow> nat" where
  "occupied_cells b = sum_list (map (\<lambda>row. count_list row 1) b)"

text \<open>The board holds 1 exactly at the listed cells, each listed once, and 0 elsewhere.\<close>

definition board_marks :: "int list list \<Rightarrow> coord list \<Rightarrow> bool" where
  "board_marks b cs =
     (wf_grid b \<and> distinct cs \<and> (\<forall>(r, c) \<in> set cs. r < 10 \<and> c < 10) \<and>
      (\<forall>r < 10. \<forall>c < 10. b ! r ! c = (if (r, c) \<in> set cs then 1 else 0)) \<and>
      occupied_cells b = length cs)"

text \<open>What a completed run of the placement loop has done.\<close>

definition placed_at :: "player \<Rightarrow> ship \<Rightarrow> player \<Rightarrow> ship \<Rightarrow> bool" where
  "placed_at self s self' s' =
     (ship_size s \<le> 10 \<and>
      (\<exists>h r c. (h \<longrightarrow> r \<le> 9 \<and> c + ship_size s \<le> 10) \<and>
               (\<not> h \<longrightarrow> r + ship_size s \<le> 10 \<and> c \<le> 9) \<and>
               s' = place s r c h \<and>
               all_water (board self) (coordinates s') = Inr True \<and>
               self' = self\<lparr>board := foldl mark_cell (board self) (coordinates s')\<rparr>))"

text \<open>
  The start positions that the random calls of the placement loop can return for a ship:
  those that keep the whole ship on the grid.
\<close>

definition start_in_range :: "ship \<Rightarrow> bool \<Rightarrow> nat \<Rightarrow> nat \<Rightarrow> bool" where
  "start_in_range s h r c =
     (if h then r \<le> 9 \<and> c + ship_size s \<le> 10 else r + ship_size s \<le> 10 \<and> c \<le> 9)"

section \<open>A sample game\<close>

text \<open>
  A random stream that repeats 18 draws: the Carrier is placed at the first attempt, the
  Battleship at its second (the first falls on the Carrier), and each other ship at its
  first. After the 18 draws the stream starts again, so both players of a game that draws
  from it get the same layout.
\<close>

definition demo_rng :: "nat stream" where
  "demo_rng = cycle [0, 0, 0, 0, 0, 0, 0, 1, 0, 1, 2, 0, 0, 5, 5, 1, 8, 9]"

definition demo_board :: "int list list" where
  "demo_board =
     [[1, 1, 1, 1, 1, 0, 0, 0, 0, 0],
      [1, 1, 1, 1, 0, 0, 0, 0, 0, 0],
      [1, 0, 0, 0, 0, 0, 0, 0, 0, 0],
      [1, 0, 0, 0, 0, 0, 0, 0, 0, 0],
      [1, 0, 0, 0, 0, 0, 0, 0, 0, 0],
      [0, 0, 0, 0, 0, 1, 1, 0, 0, 0],
      [0, 0, 0, 0, 0, 0, 0, 0, 0, 0],
      [0, 0, 0, 0, 0, 0, 0, 0, 0, 0],
      [0, 0, 0, 0, 0, 0, 0, 0, 0, 1],
      [0, 0, 0, 0, 0, 0, 0, 0, 0, 1]]"

definition demo_fleet :: "ship list" where
  "demo_fleet =
     [\<lparr>ship_name = ''Carrier'', ship_size = 5,
       coordinates = [(0, 0), (0, 1), (0, 2), (0, 3), (0, 4)], hits = {}\<rparr>,
      \<lparr>ship_name = ''Battleship'', ship_size = 4,
       coordinates = [(1, 0), (1, 1), (1, 2), (1, 3)], hits = {}\<rparr>,
      \<lparr>ship_name = ''Cruiser'', ship_size = 3,
       coordinates = [(2, 0), (3, 0), (4, 0)], hits = {}\<rparr>,
      \<lparr>ship_name = ''Submarine'', ship_size = 2,
       coordinates = [(5, 5), (5, 6)], hits = {}\<rparr>,
      \<lparr>ship_name = ''Destroyer'', ship_size = 2,
       coordinates = [(8, 9), (9, 9)], hits = {}\<rparr>]"

text \<open>A player whose board has no water left.\<close>

definition full_player :: player where
  "full_player = (Player ''Alice'')\<lparr>board := replicate 10 (replicate 10 1)\<rparr>"

section \<open>Invariants of the game\<close>

text \<open>The other player object.\<close>

fun other :: "pref \<Rightarrow> pref" where
  "other Player1 = Player2"
| "other Player2 = Player1"

text \<open>
  What holds of a player from the end of the setup phase on: the board is marked exactly
  at the coordinates of the fleet, the fleet is the declared one, every hit of a ship is
  one of its coordinates, and every stored ciphertext is the encryption, under the
  player's own key, of the board cell it is stored for.
\<close>

definition player_inv :: "player \<Rightarrow> bool" where
  "player_inv p =
     (board_marks (board p) (concat (map coordinates (ships p))) \<and>
      (\<forall>s \<in> set (ships p). length (coordinates s) = ship_size s \<and>
                             hits s \<subseteq> set (coordinates s)) \<and>
      map ship_size (ships p) = [5, 4, 3, 2, 2] \<and>
      map ship_name (ships p) =
        [''Carrier'', ''Battleship'', ''Cruiser'', ''Submarine'', ''Destroyer''] \<and>
      total_ship_cells p = 16 \<and>
      wf_grid (guess_board p) \<and>
      (\<exists>pk sk. public_key p = Some pk \<and> private_key p = Some sk \<and>
         priv_public_key sk = pk \<and>
         (\<forall>r < 10. \<forall>c < 10. \<exists>ct. encrypted_board p (r, c) = Some ct \<and>
                                    encrypt pk (board p ! r ! c) = Inr ct)))"

text \<open>
  What holds at the head of the game loop: both players are as above, attacker and
  defender are different objects, nobody has lost while the game is not over, and every
  recorded hit of a ship is marked on the guess board of the other player.
\<close>

definition game_inv :: "main_state \<Rightarrow> bool" where
  "game_inv s =
     ((\<forall>x. player_inv (players s x)) \<and>
      opponent s = other (current_player s) \<and>
      (\<forall>x. hits_received (players s x) \<le> 16 \<and>
           (\<not> game_over s \<longrightarrow> hits_received (players s x) < 16)) \<and>
      (\<forall>x. \<forall>sh \<in> set (ships (players s x)). \<forall>(r, c) \<in> hits sh.
           guess_board (players s (other x)) ! r ! c = CHR ''X''))"

section \<open>States of the sample game\<close>

text \<open>
  The sample game: Alice and Bob draw their layouts from \<open>demo_rng\<close>; the moduli of their
  keys are 1999 * 2003 and 2011 * 2017. The stored ciphertext of a cell holds the bit of
  the cell.
\<close>

definition demo_cipher :: "int \<Rightarrow> coord \<rightharpoonup> encrypted_number" where
  "demo_cipher n =
     (\<lambda>(r, c). if r < 10 \<and> c < 10
               then Some \<lparr>enc_public_key = \<lparr>pub_n = n\<rparr>, enc_residue = demo_board ! r ! c\<rparr>
               else None)"

definition demo_player :: "string \<Rightarrow> int \<Rightarrow> int \<Rightarrow> player" where
  "demo_player name p q =
     (generate_keys (Player name) p q)
       \<lparr>board := demo_board, ships := demo_fleet, encrypted_board := demo_cipher (p * q)\<rparr>"

text \<open>The state at the head of the game loop when it is entered.\<close>

definition demo_state :: main_state where
  "demo_state =
     \<lparr>players = (\<lambda>r. case r of Player1 \<Rightarrow> demo_player ''Alice'' 1999 2003
                           | Player2 \<Rightarrow> demo_player ''Bob'' 2011 2017),
      turn = 0, game_over = False, current_player = Player1, opponent = Player2\<rparr>"

text \<open>The state after Alice has guessed (0, 0), a cell of Bob's Carrier.\<close>

definition demo_state1 :: main_state where
  "demo_state1 =
     demo_state
       \<lparr>turn := 1,
        players := (players demo_state)
          (Player2 := (demo_player ''Bob'' 2011 2017)
             \<lparr>hits_received := 1,
              ships := demo_fleet[0 := (demo_fleet ! 0)\<lparr>hits := {(0, 0)}\<rparr>]\<rparr>,
           Player1 := set_guess (demo_player ''Alice'' 1999 2003) 0 0 CHR ''X''),
        current_player := Player2, opponent := Player1\<rparr>"

text \<open>The state after Bob has then guessed (6, 6), a water cell of Alice's board.\<close>

definition demo_state2 :: main_state where
  "demo_state2 =
     demo_state1
       \<lparr>turn := 2,
        players := (players demo_state1)
          (Player2 := set_guess (players demo_state1 Player2) 6 6 CHR ''O''),
        current_player := Player1, opponent := Player2\<rparr>"

text \<open>The state after Alice has then guessed (8, 9), a cell of Bob's Destroyer.\<close>

definition demo_state3 :: main_state where
  "demo_state3 =
     demo_state2
       \<lparr>turn := 3,
        players := (players demo_state2)
          (Player2 := (players demo_state2 Player2)
             \<lparr>hits_received := 2,
              ships := (ships (players demo_state2 Player2))
                [4 := (ships (players demo_state2 Player2) ! 4)\<lparr>hits := {(8, 9)}\<rparr>]\<rparr>,
           Player1 := set_guess (players demo_state2 Player1) 8 9 CHR ''X''),
        current_player := Player2, opponent := Player1\<rparr>"

text \<open>The state after Bob has then guessed (7, 7), a water cell again.\<close>

definition demo_state4 :: main_state where
  "demo_state4 =
     demo_state3
       \<lparr>turn := 4,
        players := (players demo_state3)
          (Player2 := set_guess (players demo_state3 Player2) 7 7 CHR ''O''),
        current_player := Player1, opponent := Player2\<rparr>"

text \<open>The state after Alice has then guessed (9, 9), the other cell of the Destroyer.\<close>

definition demo_state5 :: main_state where
  "demo_state5 =
     demo_state4
       \<lparr>turn := 5,
        players := (players demo_state4)
          (Player2 := (players demo_state4 Player2)
             \<lparr>hits_received := 3,
              ships := (ships (players demo_state4 Player2))
                [4 := (ships (players demo_state4 Player2) ! 4)\<lparr>hits := {(9, 9), (8, 9)}\<rparr>]\<rparr>,
           Player1 := set_guess (players demo_state4 Player1) 9 9 CHR ''X''),
        current_player := Player2, opponent := Player1\<rparr>"

section \<open>A game played to its end\<close>

text \<open>
  The loop \<open>while not game_over\<close> of \<open>main\<close>, run on the guesses that \<open>get_player_guess\<close>
  returns and the blinding factors that the hit checks sample, one pair for each
  iteration, until the game is over or the pairs are used up.
\<close>

fun game_loop :: "main_state \<Rightarrow> (coord \<times> int) list \<Rightarrow> error + main_state" where
  "game_loop s [] = Inr s"
| "game_loop s ((guess, blinding_factor) # inputs) =
     (if game_over s then Inr s
      else case game_turn s guess blinding_factor of
             Inl e \<Rightarrow> Inl e
           | Inr s' \<Rightarrow> game_loop s' inputs)"

text \<open>
  The first 30 guesses of a sample game in which Alice guesses the cells of Bob's ships
  one after the other and Bob guesses water cells of Alice's board.
\<close>

definition demo_moves :: "(coord \<times> int) list" where
  "demo_moves =
     [((0, 0), 7), ((6, 0), 999999), ((0, 1), 1007), ((6, 1), 999998),
      ((0, 2), 2007), ((6, 2), 999997), ((0, 3), 3007), ((6, 3), 999996),
      ((0, 4), 4007), ((6, 4), 999995), ((1, 0), 5007), ((6, 5), 999994),
      ((1, 1), 6007), ((6, 6), 999993), ((1, 2), 7007), ((6, 7), 999992),
      ((1, 3), 8007), ((6, 8), 999991), ((2, 0), 9007), ((6, 9), 999990),
      ((3, 0), 10007), ((7, 0), 999989), ((4, 0), 11007), ((7, 1), 999988),
      ((5, 5), 12007), ((7, 2), 999987), ((5, 6), 13007), ((7, 3), 999986),
      ((8, 9), 14007), ((7, 4), 999985)]"

text \<open>The state after these 30 guesses: Bob has 15 hits, and it is Alice's turn.\<close>

definition demo_state30 :: main_state where
  "demo_state30 =
     \<lparr>players = (\<lambda>r. case r of
         Player1 \<Rightarrow> (demo_player ''Alice'' 1999 2003)
           \<lparr>guess_board :=
        [''XXXXX     '',
         ''XXXX      '',
         ''X         '',
         ''X         '',
         ''X         '',
         ''     XX   '',
         ''          '',
         ''          '',
         ''         X'',
         ''          '']\<rparr>
       | Player2 \<Rightarrow> (demo_player ''Bob'' 2011 2017)
           \<lparr>guess_board :=
        [''          '',
         ''          '',
         ''          '',
         ''          '',
         ''          '',
         ''          '',
         ''OOOOOOOOOO'',
         ''OOOOO     '',
         ''          '',
         ''          ''],
            ships :=
         [\<lparr>ship_name = ''Carrier'', ship_size = 5,
           coordinates = [(0, 0), (0, 1), (0, 2), (0, 3), (0, 4)],
           hits = {(0, 4), (0, 3), (0, 2), (0, 1), (0, 0)}\<rparr>,
          \<lparr>ship_name = ''Battleship'', ship_size = 4,
           coordinates = [(1, 0), (1, 1), (1, 2), (1, 3)],
           hits = {(1, 3), (1, 2), (1, 1), (1, 0)}\<rparr>,
          \<lparr>ship_name = ''Cruiser'', ship_size = 3,
           coordinates = [(2, 0), (3, 0), (4, 0)],
           hits = {(4, 0), (3, 0), (2, 0)}\<rparr>,
          \<lparr>ship_name = ''Submarine'', ship_size = 2,
           coordinates = [(5, 5), (5, 6)],
           hits = {(5, 6), (5, 5)}\<rparr>,
          \<lparr>ship_name = ''Destroyer'', ship_size = 2,
           coordinates = [(8, 9), (9, 9)],
           hits = {(8, 9)}\<rparr>],
            hits_received := 15\<rparr>),
      turn = 30, game_over = False, current_player = Player1, opponent = Player2\<rparr>"

text \<open>
  The state after Alice has then guessed (9, 9), the last cell of Bob's fleet: the game
  is over, and the roles are not swapped.
\<close>

definition demo_state31 :: main_state where
  "demo_state31 =
     demo_state30
       \<lparr>turn := 31,
        players := (players demo_state30)
          (Player2 := (players demo_state30 Player2)
             \<lparr>hits_received := 16,
              ships := (ships (players demo_state30 Player2))
                [4 := (ships (players demo_state30 Player2) ! 4)\<lparr>hits := {(9, 9), (8, 9)}\<rparr>]\<rparr>,
           Player1 := set_guess (players demo_state30 Player1) 9 9 CHR ''X''),
        game_over := True\<rparr>"

section \<open>Properties of the encryption interface\<close>

lemma encode_small:
  "\<bar>v\<bar> \<le> max_int pk \<Longrightarrow> encode pk v = Inr (v mod pub_n pk)"
  by (simp add: encode_def)

lemma decode_encode:
  assumes "\<bar>v\<bar> \<le> max_int pk"
  shows "decode pk (v mod pub_n pk) = Inr v"
proof -
  let ?n = "pub_n pk"
  from assms have m: "0 \<le> max_int pk" by linarith
  then have n3: "3 \<le> ?n" unfolding max_int_def by linarith
  have m3: "3 * max_int pk + 3 \<le> ?n" unfolding max_int_def by presburger
  show ?thesis
  proof (cases "0 \<le> v")
    case True
    with assms m3 have "v < ?n" by linarith
    with True have "v mod ?n = v" by simp
    with assms True \<open>v < ?n\<close> show ?thesis by (simp add: decode_def)
  next
    case False
    with assms m3 have b: "- ?n < v" "v < 0" by linarith+
    then have "v mod ?n = v + ?n"
      by (smt (verit) mod_add_self2 mod_pos_pos_trivial)
    with assms False m3 b show ?thesis by (simp add: decode_def)
  qed
qed

lemma decrypt_encrypt:
  "encrypt pk v = Inr ct \<Longrightarrow> priv_public_key sk = pk \<Longrightarrow> decrypt sk ct = Inr v"
  by (auto simp: encrypt_def encode_def decrypt_def decode_encode split: if_splits)

lemma encrypt_bit:
  "encrypt pk b = Inr ct \<Longrightarrow> b = 0 \<or> b = 1 \<Longrightarrow>
     ct = \<lparr>enc_public_key = pk, enc_residue = b\<rparr>"
  by (auto simp: encrypt_def encode_def max_int_def split: if_splits)

lemma blinded_bit:
  assumes "encrypt pk b = Inr ct" "b = 0 \<or> b = 1" "\<bar>k\<bar> \<le> max_int pk"
    "priv_public_key sk = pk"
  shows "\<exists>ct'. enc_mul ct k = Inr ct' \<and> decrypt sk ct' = Inr (k * b)"
proof -
  from assms(1,2) have ct: "ct = \<lparr>enc_public_key = pk, enc_residue = b\<rparr>"
    by (rule encrypt_bit)
  have "(b * (k mod pub_n pk)) mod pub_n pk = (k * b) mod pub_n pk"
    using assms(2) by auto
  moreover have "\<bar>k * b\<bar> \<le> max_int pk" using assms(2,3) by auto
  ultimately show ?thesis
    using assms(3,4) by (simp add: ct enc_mul_def encode_def decrypt_def decode_encode)
qed

lemma blinded_water:
  assumes "encrypt pk 0 = Inr ct" "enc_mul ct k = Inr ct'" "priv_public_key sk = pk"
  shows "decrypt sk ct' = Inr 0"
  using assms
  by (auto simp: encrypt_def enc_mul_def encode_def decrypt_def decode_def max_int_def
      split: if_splits)

section \<open>Properties of the placement\<close>

lemma randint_le: "lo \<le> hi \<Longrightarrow> lo \<le> randint lo hi x \<and> randint lo hi x \<le> hi"
proof -
  assume "lo \<le> hi"
  have "x mod (hi - lo + 1) < hi - lo + 1" by simp
  with \<open>lo \<le> hi\<close> show ?thesis unfolding randint_def by linarith
qed

lemma place_simps [simp]:
  "ship_size (place s r c h) = ship_size s"
  "ship_name (place s r c h) = ship_name s"
  "hits (place s r c h) = hits s"
  "place (place s a b h') r c h = place s r c h"
  by (simp_all add: place_def)

lemma length_place [simp]: "length (coordinates (place s r c h)) = ship_size s"
  by (simp add: place_def)

lemma distinct_place [simp]: "distinct (coordinates (place s r c h))"
  by (auto simp: place_def distinct_map inj_on_def)

lemma place_in_range:
  assumes "(r', c') \<in> set (coordinates (place s r c h))"
    and "h \<Longrightarrow> r \<le> 9 \<and> c + ship_size s \<le> 10"
    and "\<not> h \<Longrightarrow> r + ship_size s \<le> 10 \<and> c \<le> 9"
  shows "r' < 10 \<and> c' < 10"
  using assms by (cases h) (auto simp: place_def)

lemma sample_position_range:
  assumes "ship_size s \<le> 10" "sample_position s rng = (h, r, c)"
  shows "(h \<longrightarrow> r \<le> 9 \<and> c + ship_size s \<le> 10) \<and> (\<not> h \<longrightarrow> r + ship_size s \<le> 10 \<and> c \<le> 9)"
proof -
  have a: "randint 0 9 x \<le> 9" for x using randint_le [of 0 9 x] by simp
  have b: "randint 0 (10 - ship_size s) x + ship_size s \<le> 10" for x
    using randint_le [of 0 "10 - ship_size s" x] assms(1) by simp
  from assms(2) show ?thesis
    by (auto simp: sample_position_def Let_def a b split: if_splits)
qed

lemma place_ship_random_placed_aux:
  assumes "place_ship_random self0 s0 rng0 = Some y0"
  shows "\<forall>self' s' rng'. y0 = Inr (self', s', rng') \<longrightarrow> placed_at self0 s0 self' s'"
proof (rule place_ship_random.raw_induct [OF _ assms])
  fix rec :: "player \<Rightarrow> ship \<Rightarrow> nat stream \<Rightarrow> (error + player \<times> ship \<times> nat stream) option"
  fix self s rng y
  assume IH: "\<And>self s rng y. rec self s rng = Some y \<Longrightarrow>
     \<forall>self' s' rng'. y = Inr (self', s', rng') \<longrightarrow> placed_at self s self' s'"
  assume body: "(if 10 < ship_size s then Some (Inl ValueError)
      else let (horizontal, row, col) = sample_position s rng;
               s' = place s row col horizontal;
               coords = coordinates s'
           in case all_water (board self) coords of
                Inl e \<Rightarrow> Some (Inl e)
              | Inr placed \<Rightarrow>
                  if placed
                  then Some (Inr (self\<lparr>board := foldl mark_cell (board self) coords\<rparr>,
                                  s', sdrop 3 rng))
                  else rec self s' (sdrop 3 rng)) = Some y"
  show "\<forall>self' s' rng'. y = Inr (self', s', rng') \<longrightarrow> placed_at self s self' s'"
  proof (intro allI impI)
    fix self' s' rng'
    assume y: "y = Inr (self', s', rng')"
    from y body have sz: "ship_size s \<le> 10"
      by (auto split: if_splits)
    obtain h r c where sp: "sample_position s rng = (h, r, c)"
      by (cases "sample_position s rng") auto
    note rg = sample_position_range [OF sz sp]
    let ?s1 = "place s r c h"
    show "placed_at self s self' s'"
    proof (cases "all_water (board self) (coordinates ?s1)")
      case (Inl e)
      with body y sz sp show ?thesis by (simp add: Let_def)
    next
      case (Inr placed)
      show ?thesis
      proof (cases placed)
        case True
        with Inr body y sz sp rg show ?thesis
          unfolding placed_at_def by (auto simp: Let_def)
      next
        case False
        with Inr body y sz sp
        have "rec self ?s1 (sdrop 3 rng) = Some (Inr (self', s', rng'))"
          by (simp add: Let_def)
        from IH [OF this] show ?thesis
          unfolding placed_at_def by simp
      qed
    qed
  qed
qed

lemma place_ship_random_placed:
  "place_ship_random self s rng = Some (Inr (self', s', rng')) \<Longrightarrow> placed_at self s self' s'"
  using place_ship_random_placed_aux by blast

subsection \<open>Marking cells\<close>

lemma count_list_update_new:
  "i < length xs \<Longrightarrow> xs ! i \<noteq> v \<Longrightarrow> count_list (xs[i := v]) v = count_list xs v + 1"
proof (induction xs arbitrary: i)
  case Nil
  then show ?case by simp
next
  case (Cons x xs)
  then show ?case by (cases i) auto
qed

lemma wf_grid_mark [simp]: "wf_grid b \<Longrightarrow> wf_grid (mark_cell b rc)"
proof -
  assume wf: "wf_grid b"
  obtain r c where rc: "rc = (r, c)" by (cases rc)
  show ?thesis
  proof (cases "r < length b")
    case True
    have "set (b[r := (b ! r)[c := 1]]) \<subseteq> insert ((b ! r)[c := 1]) (set b)"
      by (rule set_update_subset_insert)
    moreover have "length ((b ! r)[c := 1]) = 10"
      using wf True by (simp add: wf_grid_def)
    ultimately show ?thesis
      using wf unfolding wf_grid_def mark_cell_def rc by auto
  next
    case False
    then have "b[r := (b ! r)[c := 1]] = b" by (simp add: list_update_beyond)
    with wf show ?thesis by (simp add: mark_cell_def rc)
  qed
qed

lemma cell_mark:
  assumes "wf_grid b" "r < 10" "c < 10" "r' < 10" "c' < 10"
  shows "mark_cell b (r, c) ! r' ! c' = (if (r', c') = (r, c) then 1 else b ! r' ! c')"
  using assms by (auto simp: mark_cell_def wf_grid_def nth_list_update)

lemma occupied_mark:
  assumes "wf_grid b" "r < 10" "c < 10" "b ! r ! c \<noteq> 1"
  shows "occupied_cells (mark_cell b (r, c)) = occupied_cells b + 1"
proof -
  let ?f = "\<lambda>row. count_list row (1::int)"
  from assms have r: "r < length b" and c: "c < length (b ! r)"
    by (auto simp: wf_grid_def)
  have "count_list ((b ! r)[c := 1]) 1 = count_list (b ! r) 1 + 1"
    using c assms(4) by (rule count_list_update_new)
  moreover have "map ?f (b[r := (b ! r)[c := 1]]) = (map ?f b)[r := ?f ((b ! r)[c := 1])]"
    by (rule map_update)
  moreover have "sum_list ((map ?f b)[r := ?f ((b ! r)[c := 1])])
      = sum_list (map ?f b) + ?f ((b ! r)[c := 1]) - map ?f b ! r"
    using r by (simp add: sum_list_update)
  ultimately show ?thesis
    using r by (simp add: occupied_cells_def mark_cell_def)
qed

lemma all_water_in_range:
  assumes "wf_grid b" "\<forall>(r, c) \<in> set cs. r < 10 \<and> c < 10"
  shows "all_water b cs = Inr (\<forall>(r, c) \<in> set cs. b ! r ! c = 0)"
  using assms(2)
proof (induction cs)
  case Nil
  then show ?case by simp
next
  case (Cons rc cs)
  obtain r c where rc: "rc = (r, c)" by (cases rc)
  with Cons.prems have "r < 10" "c < 10" by auto
  with assms(1) have "r < length b" "c < length (b ! r)" by (auto simp: wf_grid_def)
  with Cons rc show ?case by auto
qed

lemma all_water_TrueD:
  "all_water b cs = Inr True \<Longrightarrow> (r, c) \<in> set cs \<Longrightarrow> b ! r ! c = 0"
proof (induction cs)
  case Nil
  then show ?case by simp
next
  case (Cons rc cs)
  obtain r' c' where rc: "rc = (r', c')" by (cases rc)
  with Cons show ?case by (auto split: if_splits)
qed

lemma board_marks_add:
  assumes "board_marks b cs" "distinct new" "\<forall>(r, c) \<in> set new. r < 10 \<and> c < 10"
    "all_water b new = Inr True"
  shows "board_marks (foldl mark_cell b new) (cs @ new)"
  using assms
proof (induction new arbitrary: b cs)
  case Nil
  then show ?case by simp
next
  case (Cons rc new)
  obtain r c where rc: "rc = (r, c)" by (cases rc)
  from Cons.prems(3) rc have rg: "r < 10" "c < 10" by auto
  from Cons.prems(1) have wf: "wf_grid b" by (simp add: board_marks_def)
  have zero: "b ! r ! c = 0"
    using all_water_TrueD [OF Cons.prems(4), of r c] rc by simp
  from Cons.prems(1) zero rg have fresh: "(r, c) \<notin> set cs"
    by (auto simp: board_marks_def)
  let ?b1 = "mark_cell b (r, c)"
  have cells: "?b1 ! r' ! c' = (if (r', c') \<in> set (cs @ [(r, c)]) then 1 else 0)"
    if "r' < 10" "c' < 10" for r' c'
    using Cons.prems(1) that rg wf by (auto simp: cell_mark board_marks_def)
  have occ: "occupied_cells ?b1 = length (cs @ [(r, c)])"
    using occupied_mark [OF wf rg] zero Cons.prems(1) by (simp add: board_marks_def)
  have bm1: "board_marks ?b1 (cs @ [(r, c)])"
    unfolding board_marks_def
    using Cons.prems(1) fresh rg wf cells occ by (auto simp: board_marks_def)
  have rest_range: "\<forall>(r, c) \<in> set new. r < 10 \<and> c < 10"
    using Cons.prems(3) by auto
  have "\<forall>(r', c') \<in> set new. ?b1 ! r' ! c' = 0"
  proof (clarify)
    fix r' c' assume in_new: "(r', c') \<in> set new"
    with Cons.prems(2) rc have ne: "(r', c') \<noteq> (r, c)" by auto
    from in_new rest_range have "r' < 10" "c' < 10" by auto
    moreover have "b ! r' ! c' = 0"
      using all_water_TrueD [OF Cons.prems(4), of r' c'] in_new by simp
    ultimately show "?b1 ! r' ! c' = 0"
      using ne wf rg by (simp add: cell_mark)
  qed
  then have water1: "all_water ?b1 new = Inr True"
    using all_water_in_range [of ?b1 new] wf rest_range by simp
  from Cons.prems(2) have "distinct new" by simp
  from Cons.IH [OF bm1 this rest_range water1] show ?case
    by (simp add: rc)
qed

lemma placed_at_marks:
  assumes "placed_at self s self' s'" "board_marks (board self) cs"
  shows "board_marks (board self') (cs @ coordinates s')"
    and "ship_size s' = ship_size s" and "ship_name s' = ship_name s" and "hits s' = hits s"
    and "length (coordinates s') = ship_size s"
    and "self' = self\<lparr>board := board self'\<rparr>"
proof -
  from assms(1) obtain h r c where
    rg: "h \<longrightarrow> r \<le> 9 \<and> c + ship_size s \<le> 10" "\<not> h \<longrightarrow> r + ship_size s \<le> 10 \<and> c \<le> 9"
    and s': "s' = place s r c h"
    and water: "all_water (board self) (coordinates s') = Inr True"
    and self': "self' = self\<lparr>board := foldl mark_cell (board self) (coordinates s')\<rparr>"
    unfolding placed_at_def by blast
  have "\<forall>(r', c') \<in> set (coordinates s'). r' < 10 \<and> c' < 10"
    using place_in_range [of _ _ s r c h] rg unfolding s' by blast
  with board_marks_add [OF assms(2) _ _ water] show "board_marks (board self') (cs @ coordinates s')"
    by (simp add: self' s')
  show "ship_size s' = ship_size s" "ship_name s' = ship_name s" "hits s' = hits s"
    "length (coordinates s') = ship_size s"
    by (simp_all add: s')
  show "self' = self\<lparr>board := board self'\<rparr>" by (simp add: self')
qed

lemma place_fleet_marks:
  assumes "place_fleet self fl rng = Some (Inr (self', fl', rng'))"
    "board_marks (board self) cs"
  shows "board_marks (board self') (cs @ concat (map coordinates fl')) \<and>
         map ship_size fl' = map ship_size fl \<and> map ship_name fl' = map ship_name fl \<and>
         map hits fl' = map hits fl \<and>
         (\<forall>s \<in> set fl'. length (coordinates s) = ship_size s) \<and>
         self' = self\<lparr>board := board self'\<rparr>"
  using assms
proof (induction fl arbitrary: self cs fl' rng)
  case Nil
  then show ?case by simp
next
  case (Cons s rest)
  from Cons.prems(1) obtain self1 s1 rng1 where
    one: "place_ship_random self s rng = Some (Inr (self1, s1, rng1))"
    by (auto split: option.splits sum.splits)
  with Cons.prems(1) obtain rest2 where
    more: "place_fleet self1 rest rng1 = Some (Inr (self', rest2, rng'))"
    and fl': "fl' = s1 # rest2"
    by (auto split: option.splits sum.splits)
  note p = placed_at_marks [OF place_ship_random_placed [OF one] Cons.prems(2)]
  note ih = Cons.IH [OF more p(1)]
  from ih have "self' = self1\<lparr>board := board self'\<rparr>" by simp
  then have "self' = (self\<lparr>board := board self1\<rparr>)\<lparr>board := board self'\<rparr>"
    using p(6) by simp
  then have frame: "self' = self\<lparr>board := board self'\<rparr>" by simp
  from ih have "board_marks (board self') (cs @ concat (map coordinates fl'))"
    by (simp add: fl')
  moreover from ih p(2-4) have "map ship_size fl' = map ship_size (s # rest)"
    "map ship_name fl' = map ship_name (s # rest)" "map hits fl' = map hits (s # rest)"
    by (simp_all add: fl')
  moreover from ih p(2,5) have "\<forall>s \<in> set fl'. length (coordinates s) = ship_size s"
    by (simp add: fl')
  ultimately show ?case using frame by blast
qed

subsection \<open>A loop that cannot place the ship does not return\<close>

lemma start_in_range_place [simp]:
  "start_in_range (place s a b h') h r c = start_in_range s h r c"
  by (simp add: start_in_range_def)

lemma place_ship_random_attempt_aux:
  assumes "place_ship_random self0 s0 rng0 = Some y0"
  shows "ship_size s0 > 10 \<or>
         (\<exists>h r c. start_in_range s0 h r c \<and>
                   all_water (board self0) (coordinates (place s0 r c h)) \<noteq> Inr False)"
proof (rule place_ship_random.raw_induct [OF _ assms])
  fix rec :: "player \<Rightarrow> ship \<Rightarrow> nat stream \<Rightarrow> (error + player \<times> ship \<times> nat stream) option"
  fix self s rng y
  assume IH: "\<And>self s rng y. rec self s rng = Some y \<Longrightarrow>
     ship_size s > 10 \<or>
     (\<exists>h r c. start_in_range s h r c \<and>
               all_water (board self) (coordinates (place s r c h)) \<noteq> Inr False)"
  assume body: "(if 10 < ship_size s then Some (Inl ValueError)
      else let (horizontal, row, col) = sample_position s rng;
               s' = place s row col horizontal;
               coords = coordinates s'
           in case all_water (board self) coords of
                Inl e \<Rightarrow> Some (Inl e)
              | Inr placed \<Rightarrow>
                  if placed
                  then Some (Inr (self\<lparr>board := foldl mark_cell (board self) coords\<rparr>,
                                  s', sdrop 3 rng))
                  else rec self s' (sdrop 3 rng)) = Some y"
  show "ship_size s > 10 \<or>
     (\<exists>h r c. start_in_range s h r c \<and>
               all_water (board self) (coordinates (place s r c h)) \<noteq> Inr False)"
  proof (cases "ship_size s > 10")
    case True
    then show ?thesis by simp
  next
    case False
    then have sz: "ship_size s \<le> 10" by simp
    obtain h r c where sp: "sample_position s rng = (h, r, c)"
      by (cases "sample_position s rng") auto
    from sample_position_range [OF sz sp] have rg: "start_in_range s h r c"
      by (simp add: start_in_range_def)
    show ?thesis
    proof (cases "all_water (board self) (coordinates (place s r c h)) = Inr False")
      case True
      with body sz sp have "rec self (place s r c h) (sdrop 3 rng) = Some y"
        by (simp add: Let_def)
      from IH [OF this] sz show ?thesis
        by simp
    next
      case False
      with rg show ?thesis by blast
    qed
  qed
qed

lemma place_ship_random_blocked:
  assumes "ship_size s \<le> 10"
    and "\<And>h r c. start_in_range s h r c \<Longrightarrow>
           all_water (board self) (coordinates (place s r c h)) = Inr False"
  shows "place_ship_random self s rng = None"
proof (cases "place_ship_random self s rng")
  case None
  then show ?thesis .
next
  case (Some y)
  from place_ship_random_attempt_aux [OF Some] assms show ?thesis by auto
qed

subsection \<open>The fleet after the setup\<close>

lemma distinct_concat_nth:
  "distinct (concat xss) \<Longrightarrow> i < j \<Longrightarrow> j < length xss \<Longrightarrow> set (xss ! i) \<inter> set (xss ! j) = {}"
proof (induction xss arbitrary: i j)
  case Nil
  then show ?case by simp
next
  case (Cons xs xss)
  from Cons.prems(2) obtain j' where j: "j = Suc j'" by (cases j) auto
  show ?case
  proof (cases i)
    case 0
    from Cons.prems(3) j have "xss ! j' \<in> set xss" by simp
    with Cons.prems(1) 0 j show ?thesis by auto
  next
    case (Suc i')
    with Cons j show ?thesis by simp
  qed
qed

lemma count_list_replicate_other: "x \<noteq> y \<Longrightarrow> count_list (replicate n x) y = 0"
  by (induction n) auto

lemma occupied_cells_fresh: "occupied_cells (replicate m (replicate n 0)) = 0"
  by (induction m) (simp_all add: occupied_cells_def count_list_replicate_other)

lemma board_marks_fresh: "board_marks (replicate 10 (replicate 10 0)) []"
  by (simp add: board_marks_def wf_grid_def occupied_cells_fresh)

lemma setup_board_marks:
  assumes "setup_board self rng = Some (Inr (self', rng'))"
    and "board self = replicate 10 (replicate 10 0)"
  shows "board_marks (board self') (concat (map coordinates (ships self')))"
    and "map ship_size (ships self') = map ship_size (ships self)"
    and "map ship_name (ships self') = map ship_name (ships self)"
    and "map hits (ships self') = map hits (ships self)"
    and "\<forall>s \<in> set (ships self'). length (coordinates s) = ship_size s"
    and "self' = self\<lparr>board := board self', ships := ships self'\<rparr>"
proof -
  from assms(1) obtain self1 fleet where
    pf: "place_fleet self (ships self) rng = Some (Inr (self1, fleet, rng'))"
    and self': "self' = self1\<lparr>ships := fleet\<rparr>"
    by (auto simp: setup_board_def split: option.splits sum.splits)
  have "board_marks (board self) []" using assms(2) board_marks_fresh by simp
  note m = place_fleet_marks [OF pf this]
  from m show "board_marks (board self') (concat (map coordinates (ships self')))"
    "map ship_size (ships self') = map ship_size (ships self)"
    "map ship_name (ships self') = map ship_name (ships self)"
    "map hits (ships self') = map hits (ships self)"
    "\<forall>s \<in> set (ships self'). length (coordinates s) = ship_size s"
    by (simp_all add: self')
  from m have "self1 = self\<lparr>board := board self1\<rparr>" by simp
  then have "self1\<lparr>ships := fleet\<rparr> = self\<lparr>board := board self1, ships := fleet\<rparr>"
    by (metis player.update_convs(2))
  then show "self' = self\<lparr>board := board self', ships := ships self'\<rparr>"
    by (simp add: self')
qed

subsection \<open>Placement validity\<close>

lemma generate_keys_simps [simp]:
  "player_name (generate_keys self p q) = player_name self"
  "board (generate_keys self p q) = board self"
  "guess_board (generate_keys self p q) = guess_board self"
  "ships (generate_keys self p q) = ships self"
  "encrypted_board (generate_keys self p q) = encrypted_board self"
  "hits_received (generate_keys self p q) = hits_received self"
  "total_ship_cells (generate_keys self p q) = total_ship_cells self"
  "public_key (generate_keys self p q) = Some \<lparr>pub_n = p * q\<rparr>"
  "private_key (generate_keys self p q)
     = Some \<lparr>priv_public_key = \<lparr>pub_n = p * q\<rparr>, priv_p = p, priv_q = q\<rparr>"
  by (simp_all add: generate_keys_def generate_paillier_keypair_def Let_def)

lemma length_concat_map:
  "\<forall>s \<in> set ss. length (g s) = f s \<Longrightarrow> length (concat (map g ss)) = sum_list (map f ss)"
  by (induction ss) auto

lemma sdrop3: "sdrop 3 s = stl (stl (stl s))"
  by (simp add: numeral_3_eq_3)

lemma replicate10: "replicate 10 x = [x, x, x, x, x, x, x, x, x, x]"
  by (simp add: eval_nat_numeral)

lemma upt_small:
  "[0..<2] = [0, 1]" "[0..<3] = [0, 1, 2]" "[0..<4] = [0, 1, 2, 3]" "[0..<5] = [0, 1, 2, 3, 4]"
  by code_simp+

lemma demo_setup:
  "setup_board (generate_keys (Player name) p q) demo_rng
   = Some (Inr ((generate_keys (Player name) p q)\<lparr>board := demo_board, ships := demo_fleet\<rparr>,
                demo_rng))"
  by (simp add: setup_board_def generate_keys_def generate_paillier_keypair_def Player_def
      Ship_def demo_rng_def place_ship_random.simps sample_position_def choice_def randint_def
      place_def mark_cell_def sdrop3 Let_def replicate10 upt_small demo_board_def
      demo_fleet_def)

text \<open>
  C3. After \<open>setup_board\<close> has returned on the player that \<open>main\<close> creates, no two ships
  share a coordinate, every ship has as many coordinates as its size, the sizes are the
  declared ones, every coordinate lies within the grid, and 16 board cells are marked 1.
\<close>

theorem placement_validity:
  assumes "setup_board (generate_keys (Player name) p q) rng = Some (Inr (self', rng'))"
  shows "(\<forall>i < length (ships self'). \<forall>j < length (ships self'). i \<noteq> j \<longrightarrow>
            set (coordinates (ships self' ! i)) \<inter> set (coordinates (ships self' ! j)) = {}) \<and>
         (\<forall>s \<in> set (ships self'). length (coordinates s) = ship_size s \<and>
            (\<forall>(r, c) \<in> set (coordinates s). r \<le> 9 \<and> c \<le> 9)) \<and>
         map ship_size (ships self') = [5, 4, 3, 2, 2] \<and>
         occupied_cells (board self') = 16"
proof -
  let ?self = "generate_keys (Player name) p q"
  have fresh: "board ?self = replicate 10 (replicate 10 0)"
    by (simp add: Player_def)
  note m = setup_board_marks [OF assms fresh]
  let ?cs = "concat (map coordinates (ships self'))"
  from m(1) have dist: "distinct ?cs" and range: "\<forall>(r, c) \<in> set ?cs. r < 10 \<and> c < 10"
    and occ: "occupied_cells (board self') = length ?cs"
    by (simp_all add: board_marks_def)
  have disj: "set (coordinates (ships self' ! i)) \<inter> set (coordinates (ships self' ! j)) = {}"
    if "i < length (ships self')" "j < length (ships self')" "i \<noteq> j" for i j
  proof (cases "i < j")
    case True
    with distinct_concat_nth [OF dist, of i j] that show ?thesis by simp
  next
    case False
    with that have "j < i" by simp
    with distinct_concat_nth [OF dist, of j i] that show ?thesis by auto
  qed
  have sizes: "map ship_size (ships self') = [5, 4, 3, 2, 2]"
    using m(2) by (simp add: Player_def Ship_def)
  have "length ?cs = sum_list (map ship_size (ships self'))"
    using m(5) by (rule length_concat_map)
  with occ sizes have sixteen: "occupied_cells (board self') = 16" by simp
  have inside: "\<forall>s \<in> set (ships self'). length (coordinates s) = ship_size s \<and>
            (\<forall>(r, c) \<in> set (coordinates s). r \<le> 9 \<and> c \<le> 9)"
    using m(5) range by fastforce
  from disj inside sizes sixteen show ?thesis by blast
qed

theorem placement_validity_witness:
  "setup_board (generate_keys (Player ''Alice'') 1999 2003) demo_rng
     = Some (Inr ((generate_keys (Player ''Alice'') 1999 2003)
                    \<lparr>board := demo_board, ships := demo_fleet\<rparr>, demo_rng)) \<and>
   occupied_cells demo_board = 16 \<and>
   map ship_size demo_fleet = [5, 4, 3, 2, 2]"
  using placement_validity [OF demo_setup [of "''Alice''" 1999 2003]]
    demo_setup [of "''Alice''" 1999 2003]
  by simp

subsection \<open>Placement without an attempt bound\<close>

lemma all_water_full:
  assumes "r < 10" "c < 10"
  shows "all_water (replicate 10 (replicate 10 1)) ((r, c) # cs) = Inr False"
  using assms by simp

lemma full_player_blocked:
  assumes "0 < ship_size s" "start_in_range s h r c"
  shows "all_water (board full_player) (coordinates (place s r c h)) = Inr False"
proof -
  from assms(1) have "[0..<ship_size s] = 0 # [1..<ship_size s]"
    by (simp add: upt_conv_Cons)
  then obtain cs where cs: "coordinates (place s r c h) = (r, c) # cs"
    by (cases h) (simp_all add: place_def)
  from assms have "r < 10 \<and> c < 10"
    by (auto simp: start_in_range_def split: if_splits)
  then show ?thesis
    by (simp add: cs full_player_def all_water_full)
qed

text \<open>
  C9 (as amended). The placement loop has no attempt bound and no configuration error:
  on a board where every start position that can be sampled for the ship overlaps an
  occupied cell, \<open>place_ship_random\<close> does not return, whatever the random source.
\<close>

theorem placement_retries_forever:
  assumes "ship_size s \<le> 10"
    and "\<forall>h r c. start_in_range s h r c \<longrightarrow>
           all_water (board self) (coordinates (place s r c h)) = Inr False"
  shows "place_ship_random self s rng = None"
  using assms by (intro place_ship_random_blocked) auto

theorem placement_retries_forever_witness:
  "ship_size (Ship ''Destroyer'' 2) \<le> 10 \<and>
   start_in_range (Ship ''Destroyer'' 2) True 0 0 \<and>
   all_water (board full_player) (coordinates (place (Ship ''Destroyer'' 2) 0 0 True))
     = Inr False \<and>
   place_ship_random full_player (Ship ''Destroyer'' 2) demo_rng = None"
proof -
  have sz: "ship_size (Ship ''Destroyer'' 2) \<le> 10" by (simp add: Ship_def)
  have bl: "\<forall>h r c. start_in_range (Ship ''Destroyer'' 2) h r c \<longrightarrow>
      all_water (board full_player) (coordinates (place (Ship ''Destroyer'' 2) r c h))
        = Inr False"
    using full_player_blocked [of "Ship ''Destroyer'' 2"] by (simp add: Ship_def)
  have st: "start_in_range (Ship ''Destroyer'' 2) True 0 0"
    by (simp add: start_in_range_def Ship_def)
  from sz st bl placement_retries_forever [OF sz bl, of demo_rng] show ?thesis by blast
qed

text \<open>
  The claim as stated fails on a board that has no water left: no placement of the
  Carrier can succeed there, whatever is drawn, and \<open>place_ship_random\<close> neither returns
  nor raises; here it is run on the draws of the sample game.
\<close>

theorem placement_bound_counterexample:
  "board full_player = replicate 10 (replicate 10 1) \<and>
   ship_size (Ship ''Carrier'' 5) = 5 \<and>
   place_ship_random full_player (Ship ''Carrier'' 5) demo_rng = None"
proof -
  have sz: "ship_size (Ship ''Carrier'' 5) = 5" by (simp add: Ship_def)
  have "place_ship_random full_player (Ship ''Carrier'' 5) demo_rng = None"
  proof (rule place_ship_random_blocked)
    show "ship_size (Ship ''Carrier'' 5) \<le> 10" by (simp add: sz)
  next
    fix h r c assume "start_in_range (Ship ''Carrier'' 5) h r c"
    then show "all_water (board full_player) (coordinates (place (Ship ''Carrier'' 5) r c h))
                 = Inr False"
      by (intro full_player_blocked) (simp_all add: sz)
  qed
  with sz show ?thesis by (simp add: full_player_def)
qed

section \<open>Properties of the encrypted board\<close>

lemma encrypt_cells_result:
  assumes "encrypt_cells self cs = Inr self'"
  shows "self' = self\<lparr>encrypted_board := encrypted_board self'\<rparr> \<and>
         (\<forall>r c. (r, c) \<in> set cs \<longrightarrow>
            (\<exists>pk ct. public_key self = Some pk \<and> encrypted_board self' (r, c) = Some ct \<and>
                      encrypt pk (board self ! r ! c) = Inr ct)) \<and>
         (\<forall>k. k \<notin> set cs \<longrightarrow> encrypted_board self' k = encrypted_board self k)"
  using assms
proof (induction cs arbitrary: self)
  case Nil
  then show ?case by simp
next
  case (Cons rc cs)
  obtain row col where rc: "rc = (row, col)" by (cases rc)
  from Cons.prems rc obtain pk ct where
    pk: "public_key self = Some pk"
    and ct: "encrypt pk (board self ! row ! col) = Inr ct"
    and rest: "encrypt_cells
                 (self\<lparr>encrypted_board := (encrypted_board self)((row, col) \<mapsto> ct)\<rparr>) cs
               = Inr self'"
    by (auto split: option.splits if_splits sum.splits)
  let ?self1 = "self\<lparr>encrypted_board := (encrypted_board self)((row, col) \<mapsto> ct)\<rparr>"
  note ih = Cons.IH [OF rest]
  from ih have frame: "self' = self\<lparr>encrypted_board := encrypted_board self'\<rparr>"
    by (metis (no_types, lifting) player.update_convs(5) player.surjective
        player.select_convs player.ext_inject)
  have here: "\<exists>pk ct. public_key self = Some pk \<and> encrypted_board self' (r, c) = Some ct \<and>
                      encrypt pk (board self ! r ! c) = Inr ct"
    if "(r, c) \<in> set (rc # cs)" for r c
  proof (cases "(r, c) \<in> set cs")
    case True
    with ih show ?thesis by simp
  next
    case False
    with that rc have eq: "(r, c) = (row, col)" by simp
    from ih False have "encrypted_board self' (r, c) = encrypted_board ?self1 (r, c)" by blast
    with eq pk ct show ?thesis by simp
  qed
  have "encrypted_board self' k = encrypted_board self k" if "k \<notin> set (rc # cs)" for k
  proof -
    from that rc have k1: "k \<notin> set cs" and k2: "k \<noteq> (row, col)" by auto
    from ih k1 have "encrypted_board self' k = encrypted_board ?self1 k" by blast
    also have "\<dots> = encrypted_board self k" using k2 by simp
    finally show ?thesis .
  qed
  with frame here show ?case by blast
qed

lemma in_all_cells: "(r, c) \<in> set (List.product [0..<10] [0..<10]) \<longleftrightarrow> r < 10 \<and> c < 10"
  by auto

lemma encrypt_board_result:
  assumes "encrypt_board self = Inr self'"
  shows "self' = self\<lparr>encrypted_board := encrypted_board self'\<rparr>"
    and "r < 10 \<Longrightarrow> c < 10 \<Longrightarrow>
           \<exists>pk ct. public_key self = Some pk \<and> encrypted_board self' (r, c) = Some ct \<and>
                    encrypt pk (board self ! r ! c) = Inr ct"
    and "\<not> (r < 10 \<and> c < 10) \<Longrightarrow> encrypted_board self' (r, c) = encrypted_board self (r, c)"
proof -
  note res = encrypt_cells_result [OF assms [unfolded encrypt_board_def]]
  from res show "self' = self\<lparr>encrypted_board := encrypted_board self'\<rparr>" by blast
  from res in_all_cells [of r c]
  show "r < 10 \<Longrightarrow> c < 10 \<Longrightarrow>
           \<exists>pk ct. public_key self = Some pk \<and> encrypted_board self' (r, c) = Some ct \<and>
                    encrypt pk (board self ! r ! c) = Inr ct"
    by blast
  from res in_all_cells [of r c]
  show "\<not> (r < 10 \<and> c < 10) \<Longrightarrow> encrypted_board self' (r, c) = encrypted_board self (r, c)"
    by blast
qed

lemma encrypt_cells_succeeds:
  assumes "public_key self = Some pk"
    and "\<forall>(r, c) \<in> set cs. r < length (board self) \<and> c < length (board self ! r) \<and>
           \<bar>board self ! r ! c\<bar> \<le> max_int pk"
  shows "\<exists>self'. encrypt_cells self cs = Inr self'"
  using assms
proof (induction cs arbitrary: self)
  case Nil
  then show ?case by simp
next
  case (Cons rc cs)
  obtain row col where rc: "rc = (row, col)" by (cases rc)
  let ?ct = "\<lparr>enc_public_key = pk, enc_residue = board self ! row ! col mod pub_n pk\<rparr>"
  let ?self1 = "self\<lparr>encrypted_board := (encrypted_board self)((row, col) \<mapsto> ?ct)\<rparr>"
  from Cons.prems rc have here: "row < length (board self)" "col < length (board self ! row)"
    "encrypt pk (board self ! row ! col) = Inr ?ct"
    by (auto simp: encrypt_def encode_def)
  have "\<exists>self'. encrypt_cells ?self1 cs = Inr self'"
    using Cons.prems by (intro Cons.IH) auto
  with here Cons.prems(1) rc show ?case by simp
qed

lemma board_marks_bit:
  "board_marks b cs \<Longrightarrow> r < 10 \<Longrightarrow> c < 10 \<Longrightarrow> b ! r ! c = 0 \<or> b ! r ! c = 1"
  by (auto simp: board_marks_def)

lemma board_marks_wf: "board_marks b cs \<Longrightarrow> wf_grid b"
  by (simp add: board_marks_def)

lemma wf_grid_nth: "wf_grid g \<Longrightarrow> r < 10 \<Longrightarrow> r < length g \<and> length (g ! r) = 10"
  by (simp add: wf_grid_def)

text \<open>The closed form of the encrypted board of a freshly placed player.\<close>

lemma encrypt_board_closed:
  assumes pk: "public_key self = Some pk" and m: "1 \<le> max_int pk"
    and bm: "board_marks (board self) cs" and empty: "encrypted_board self = Map.empty"
  shows "encrypt_board self =
         Inr (self\<lparr>encrypted_board :=
                     (\<lambda>(r, c). if r < 10 \<and> c < 10
                               then Some \<lparr>enc_public_key = pk, enc_residue = board self ! r ! c\<rparr>
                               else None)\<rparr>)"
proof -
  have bit: "board self ! r ! c = 0 \<or> board self ! r ! c = 1" if "r < 10" "c < 10" for r c
    using board_marks_bit [OF bm that] .
  have "\<forall>(r, c) \<in> set (List.product [0..<10] [0..<10]).
          r < length (board self) \<and> c < length (board self ! r) \<and>
          \<bar>board self ! r ! c\<bar> \<le> max_int pk"
  proof (clarify)
    fix r c assume "(r, c) \<in> set (List.product [0..<10] [0..<10])"
    then have rc: "r < 10" "c < 10" by auto
    with wf_grid_nth [OF board_marks_wf [OF bm]] bit [OF rc] m
    show "r < length (board self) \<and> c < length (board self ! r) \<and>
          \<bar>board self ! r ! c\<bar> \<le> max_int pk"
      by auto
  qed
  from encrypt_cells_succeeds [OF pk this] obtain self' where
    res: "encrypt_board self = Inr self'"
    by (auto simp: encrypt_board_def)
  have "encrypted_board self' k =
        (case k of (r, c) \<Rightarrow> if r < 10 \<and> c < 10
           then Some \<lparr>enc_public_key = pk, enc_residue = board self ! r ! c\<rparr> else None)" for k
  proof -
    obtain r c where k: "k = (r, c)" by (cases k)
    show ?thesis
    proof (cases "r < 10 \<and> c < 10")
      case True
      with encrypt_board_result(2) [OF res, of r c] pk obtain ct where
        ct: "encrypted_board self' (r, c) = Some ct" "encrypt pk (board self ! r ! c) = Inr ct"
        by auto
      from encrypt_bit [OF ct(2)] bit True ct(1) show ?thesis by (simp add: k)
    next
      case False
      with encrypt_board_result(3) [OF res, of r c] empty show ?thesis by (auto simp: k)
    qed
  qed
  then have "encrypted_board self' =
      (\<lambda>(r, c). if r < 10 \<and> c < 10
                then Some \<lparr>enc_public_key = pk, enc_residue = board self ! r ! c\<rparr> else None)"
    by (intro ext) simp
  with encrypt_board_result(1) [OF res] res show ?thesis by simp
qed

section \<open>The invariants hold in every state of the game loop\<close>

lemma wf_grid_replicate [simp]: "wf_grid (replicate 10 (replicate 10 x))"
  by (simp add: wf_grid_def)

lemma setup_board_frame:
  assumes "setup_board self rng = Some (Inr (self', rng'))"
    and "board self = replicate 10 (replicate 10 0)"
  shows "player_name self' = player_name self" "guess_board self' = guess_board self"
    "encrypted_board self' = encrypted_board self" "public_key self' = public_key self"
    "private_key self' = private_key self" "hits_received self' = hits_received self"
    "total_ship_cells self' = total_ship_cells self"
proof -
  note f = setup_board_marks(6) [OF assms]
  show "player_name self' = player_name self" using arg_cong [OF f, of player_name] by simp
  show "guess_board self' = guess_board self" using arg_cong [OF f, of guess_board] by simp
  show "encrypted_board self' = encrypted_board self"
    using arg_cong [OF f, of encrypted_board] by simp
  show "public_key self' = public_key self" using arg_cong [OF f, of public_key] by simp
  show "private_key self' = private_key self" using arg_cong [OF f, of private_key] by simp
  show "hits_received self' = hits_received self"
    using arg_cong [OF f, of hits_received] by simp
  show "total_ship_cells self' = total_ship_cells self"
    using arg_cong [OF f, of total_ship_cells] by simp
qed

lemma encrypt_board_frame:
  assumes "encrypt_board self = Inr self'"
  shows "player_name self' = player_name self" "board self' = board self"
    "guess_board self' = guess_board self" "ships self' = ships self"
    "public_key self' = public_key self" "private_key self' = private_key self"
    "hits_received self' = hits_received self" "total_ship_cells self' = total_ship_cells self"
proof -
  note f = encrypt_board_result(1) [OF assms]
  show "player_name self' = player_name self" using arg_cong [OF f, of player_name] by simp
  show "board self' = board self" using arg_cong [OF f, of board] by simp
  show "guess_board self' = guess_board self" using arg_cong [OF f, of guess_board] by simp
  show "ships self' = ships self" using arg_cong [OF f, of ships] by simp
  show "public_key self' = public_key self" using arg_cong [OF f, of public_key] by simp
  show "private_key self' = private_key self" using arg_cong [OF f, of private_key] by simp
  show "hits_received self' = hits_received self"
    using arg_cong [OF f, of hits_received] by simp
  show "total_ship_cells self' = total_ship_cells self"
    using arg_cong [OF f, of total_ship_cells] by simp
qed

lemma player_inv_setup:
  assumes sb: "setup_board (generate_keys (Player name) p q) rng = Some (Inr (p1, rng1))"
    and eb: "encrypt_board p1 = Inr p2"
  shows "player_inv p2" and "hits_received p2 = 0" and "\<forall>s \<in> set (ships p2). hits s = {}"
proof -
  let ?p0 = "generate_keys (Player name) p q"
  let ?pk = "\<lparr>pub_n = p * q\<rparr>"
  let ?sk = "\<lparr>priv_public_key = \<lparr>pub_n = p * q\<rparr>, priv_p = p, priv_q = q\<rparr>"
  have fresh: "board ?p0 = replicate 10 (replicate 10 0)" by (simp add: Player_def)
  note m = setup_board_marks [OF sb fresh]
  note f1 = setup_board_frame [OF sb fresh]
  note f2 = encrypt_board_frame [OF eb]
  note e = encrypt_board_result [OF eb]
  have marks: "board_marks (board p2) (concat (map coordinates (ships p2)))"
    using m(1) f2 by simp
  have empty: "\<forall>s \<in> set (ships p2). hits s = {}"
  proof
    fix s assume "s \<in> set (ships p2)"
    then have "hits s \<in> set (map hits (ships p1))" using f2 by simp
    with m(4) show "hits s = {}" by (auto simp: Player_def Ship_def)
  qed
  have fleet: "\<forall>s \<in> set (ships p2). length (coordinates s) = ship_size s \<and>
                             hits s \<subseteq> set (coordinates s)"
    using m(5) f2 empty by simp
  have sizes: "map ship_size (ships p2) = [5, 4, 3, 2, 2]"
    using m(2) f2 by (simp add: Player_def Ship_def)
  have names: "map ship_name (ships p2) =
        [''Carrier'', ''Battleship'', ''Cruiser'', ''Submarine'', ''Destroyer'']"
    using m(3) f2 by (simp add: Player_def Ship_def)
  have total: "total_ship_cells p2 = 16"
    using f1 f2 by (simp add: Player_def Ship_def)
  have guess: "wf_grid (guess_board p2)"
    using f1 f2 by (simp add: Player_def)
  have keys: "public_key p2 = Some ?pk" "private_key p2 = Some ?sk"
    using f1 f2 by simp_all
  have enc: "\<forall>r < 10. \<forall>c < 10. \<exists>ct. encrypted_board p2 (r, c) = Some ct \<and>
                                    encrypt ?pk (board p2 ! r ! c) = Inr ct"
  proof (intro allI impI)
    fix r c :: nat assume "r < 10" "c < 10"
    from e(2) [OF this] f1(4) f2(2)
    show "\<exists>ct. encrypted_board p2 (r, c) = Some ct \<and> encrypt ?pk (board p2 ! r ! c) = Inr ct"
      by auto
  qed
  have "\<exists>pk sk. public_key p2 = Some pk \<and> private_key p2 = Some sk \<and>
         priv_public_key sk = pk \<and>
         (\<forall>r < 10. \<forall>c < 10. \<exists>ct. encrypted_board p2 (r, c) = Some ct \<and>
                                    encrypt pk (board p2 ! r ! c) = Inr ct)"
    using keys enc by (intro exI [of _ ?pk] exI [of _ ?sk]) simp
  with marks fleet sizes names total guess show "player_inv p2"
    unfolding player_inv_def by blast
  show "hits_received p2 = 0" using f1 f2 by (simp add: Player_def)
  show "\<forall>s \<in> set (ships p2). hits s = {}" by (rule empty)
qed

lemma main_setup_players:
  assumes "main_setup k1 k2 rng = Some (Inr s)"
  shows "\<exists>rng1 rng2 a1 a2 b1 b2.
           setup_board (generate_keys (Player ''Alice'') (fst k1) (snd k1)) rng
             = Some (Inr (a1, rng1)) \<and>
           setup_board (generate_keys (Player ''Bob'') (fst k2) (snd k2)) rng1
             = Some (Inr (b1, rng2)) \<and>
           encrypt_board a1 = Inr a2 \<and> encrypt_board b1 = Inr b2 \<and>
           s = \<lparr>players = (\<lambda>r. case r of Player1 \<Rightarrow> a2 | Player2 \<Rightarrow> b2), turn = 0,
                game_over = False, current_player = Player1, opponent = Player2\<rparr>"
  using assms unfolding main_setup_def Let_def
  by (auto split: option.splits sum.splits prod.splits)

lemma game_inv_start:
  assumes "main_setup k1 k2 rng = Some (Inr s)"
  shows "game_inv s"
proof -
  from main_setup_players [OF assms] obtain rng1 rng2 a1 a2 b1 b2 where
    a: "setup_board (generate_keys (Player ''Alice'') (fst k1) (snd k1)) rng
          = Some (Inr (a1, rng1))" "encrypt_board a1 = Inr a2"
    and b: "setup_board (generate_keys (Player ''Bob'') (fst k2) (snd k2)) rng1
          = Some (Inr (b1, rng2))" "encrypt_board b1 = Inr b2"
    and s: "s = \<lparr>players = (\<lambda>r. case r of Player1 \<Rightarrow> a2 | Player2 \<Rightarrow> b2), turn = 0,
                game_over = False, current_player = Player1, opponent = Player2\<rparr>"
    by blast
  note ia = player_inv_setup [OF a]
  note ib = player_inv_setup [OF b]
  have pl: "players s x = (case x of Player1 \<Rightarrow> a2 | Player2 \<Rightarrow> b2)" for x
    by (simp add: s)
  have "\<forall>x. player_inv (players s x)"
    using ia(1) ib(1) by (auto simp: pl split: pref.splits)
  moreover have "opponent s = other (current_player s)" by (simp add: s)
  moreover have "\<forall>x. hits_received (players s x) \<le> 16 \<and>
           (\<not> game_over s \<longrightarrow> hits_received (players s x) < 16)"
    using ia(2) ib(2) by (auto simp: pl split: pref.splits)
  moreover have "\<forall>x. \<forall>sh \<in> set (ships (players s x)). \<forall>(r, c) \<in> hits sh.
           guess_board (players s (other x)) ! r ! c = CHR ''X''"
    using ia(3) ib(3) by (auto simp: pl split: pref.splits)
  ultimately show ?thesis unfolding game_inv_def by blast
qed

section \<open>Properties of the hit check\<close>

lemma player_inv_bit:
  "player_inv p \<Longrightarrow> r < 10 \<Longrightarrow> c < 10 \<Longrightarrow> board p ! r ! c = 0 \<or> board p ! r ! c = 1"
  unfolding player_inv_def using board_marks_bit by blast

lemma player_inv_cipher:
  assumes "player_inv p" "r < 10" "c < 10"
  obtains pk sk where "public_key p = Some pk" "private_key p = Some sk"
    "priv_public_key sk = pk"
    "encrypted_board p (r, c) = Some \<lparr>enc_public_key = pk, enc_residue = board p ! r ! c\<rparr>"
    "encrypt pk (board p ! r ! c) =
       Inr \<lparr>enc_public_key = pk, enc_residue = board p ! r ! c\<rparr>"
proof -
  from assms obtain pk sk ct where k: "public_key p = Some pk" "private_key p = Some sk"
    "priv_public_key sk = pk" and ct: "encrypted_board p (r, c) = Some ct"
    "encrypt pk (board p ! r ! c) = Inr ct"
    unfolding player_inv_def by blast
  from encrypt_bit [OF ct(2) player_inv_bit [OF assms]] ct k that show thesis by simp
qed

lemma decrypted_val_water:
  assumes "player_inv p" "r < 10" "c < 10" "board p ! r ! c = 0"
    "decrypted_val p r c k = Inr v"
  shows "v = 0"
proof -
  from assms(1-3) obtain pk sk where k: "private_key p = Some sk" "priv_public_key sk = pk"
    and ct: "encrypted_board p (r, c) = Some \<lparr>enc_public_key = pk, enc_residue = board p ! r ! c\<rparr>"
      "encrypt pk (board p ! r ! c) = Inr \<lparr>enc_public_key = pk, enc_residue = board p ! r ! c\<rparr>"
    by (rule player_inv_cipher)
  from assms(5) ct(1) k(1) obtain ct' where
    m: "enc_mul \<lparr>enc_public_key = pk, enc_residue = board p ! r ! c\<rparr> k = Inr ct'"
    and d: "decrypt sk ct' = Inr v"
    by (auto simp: decrypted_val_def split: sum.splits)
  from blinded_water [OF _ m k(2)] ct(2) assms(4) d show ?thesis by simp
qed

lemma decrypted_val_blinded:
  assumes "player_inv p" "r < 10" "c < 10" "public_key p = Some pk" "\<bar>k\<bar> \<le> max_int pk"
  shows "decrypted_val p r c k = Inr (k * board p ! r ! c)"
proof -
  from assms(1-3) obtain pk' sk where k: "public_key p = Some pk'" "private_key p = Some sk"
    "priv_public_key sk = pk'"
    and ct: "encrypted_board p (r, c) = Some \<lparr>enc_public_key = pk', enc_residue = board p ! r ! c\<rparr>"
      "encrypt pk' (board p ! r ! c) = Inr \<lparr>enc_public_key = pk', enc_residue = board p ! r ! c\<rparr>"
    by (rule player_inv_cipher)
  from k(1) assms(4) have [simp]: "pk' = pk" by simp
  from blinded_bit [OF ct(2) player_inv_bit [OF assms(1-3)], of k sk] assms(5) k(3)
  obtain ct' where "enc_mul \<lparr>enc_public_key = pk, enc_residue = board p ! r ! c\<rparr> k = Inr ct'"
    "decrypt sk ct' = Inr (k * board p ! r ! c)"
    by auto
  with ct(1) k(2) show ?thesis by (simp add: decrypted_val_def)
qed

subsection \<open>The scan over the ships\<close>

lemma mark_ship_none:
  "\<forall>s \<in> set fleet. g \<notin> set (coordinates s) \<Longrightarrow> mark_ship fleet g = (fleet, ''hit'', None)"
  by (induction fleet) auto

lemma mark_ship_at:
  assumes "i < length fleet" "g \<in> set (coordinates (fleet ! i))"
    "\<forall>j < i. g \<notin> set (coordinates (fleet ! j))"
  shows "mark_ship fleet g =
     (fleet[i := (fleet ! i)\<lparr>hits := insert g (hits (fleet ! i))\<rparr>],
      if is_sunk ((fleet ! i)\<lparr>hits := insert g (hits (fleet ! i))\<rparr>)
      then (''sunk'', Some (ship_name (fleet ! i))) else (''hit'', None))"
  using assms
proof (induction fleet arbitrary: i)
  case Nil
  then show ?case by simp
next
  case (Cons s fleet)
  show ?case
  proof (cases i)
    case 0
    with Cons.prems show ?thesis by (simp add: Let_def)
  next
    case (Suc i')
    with Cons.prems have notin: "g \<notin> set (coordinates s)" by auto
    from Cons.prems Suc have "\<forall>j < i'. g \<notin> set (coordinates (fleet ! j))" by auto
    with Cons.IH [of i'] Cons.prems Suc notin show ?thesis by simp
  qed
qed

lemma player_inv_holder:
  assumes "player_inv p" "r < 10" "c < 10" "board p ! r ! c = 1"
  shows "\<exists>i < length (ships p). (r, c) \<in> set (coordinates (ships p ! i)) \<and>
           (\<forall>j < length (ships p). j \<noteq> i \<longrightarrow> (r, c) \<notin> set (coordinates (ships p ! j)))"
proof -
  let ?cs = "concat (map coordinates (ships p))"
  from assms(1) have bm: "board_marks (board p) ?cs" by (simp add: player_inv_def)
  with assms(2-4) have "(r, c) \<in> set ?cs"
    by (auto simp: board_marks_def split: if_splits)
  then obtain s where "s \<in> set (ships p)" "(r, c) \<in> set (coordinates s)" by auto
  then obtain i where i: "i < length (ships p)" "(r, c) \<in> set (coordinates (ships p ! i))"
    by (auto simp: in_set_conv_nth)
  from bm have dist: "distinct ?cs" by (simp add: board_marks_def)
  have "(r, c) \<notin> set (coordinates (ships p ! j))" if "j < length (ships p)" "j \<noteq> i" for j
  proof (cases "i < j")
    case True
    from distinct_concat_nth [OF dist True] that i show ?thesis by auto
  next
    case False
    with that have "j < i" by simp
    from distinct_concat_nth [OF dist this] that i show ?thesis by auto
  qed
  with i show ?thesis by blast
qed

subsection \<open>The two outcomes of the hit check\<close>

lemma check_hit_miss:
  "decrypted_val (st d) r c k = Inr 0 \<Longrightarrow>
     check_hit_homomorphic st d r c a k = Inr ((''miss'', None), st)"
  by (simp add: check_hit_homomorphic_def)

lemma check_hit_hit:
  assumes "decrypted_val (st d) r c k = Inr v" "v \<noteq> 0"
    and "i < length (ships (st d))" "(r, c) \<in> set (coordinates (ships (st d) ! i))"
    and "\<forall>j < length (ships (st d)). j \<noteq> i \<longrightarrow> (r, c) \<notin> set (coordinates (ships (st d) ! j))"
  shows "check_hit_homomorphic st d r c a k =
     Inr (if is_sunk ((ships (st d) ! i)\<lparr>hits := insert (r, c) (hits (ships (st d) ! i))\<rparr>)
          then (''sunk'', Some (ship_name (ships (st d) ! i))) else (''hit'', None),
          st(d := (st d)\<lparr>hits_received := hits_received (st d) + 1,
                          ships := (ships (st d))
                            [i := (ships (st d) ! i)
                                    \<lparr>hits := insert (r, c) (hits (ships (st d) ! i))\<rparr>]\<rparr>))"
proof -
  from assms(3,5) have "\<forall>j < i. (r, c) \<notin> set (coordinates (ships (st d) ! j))" by auto
  note ms = mark_ship_at [OF assms(3,4) this]
  show ?thesis
    using assms(1,2) by (simp add: check_hit_homomorphic_def Let_def ms)
qed

lemma check_hit_frame:
  assumes "check_hit_homomorphic st d r c a k = Inr (res, st')"
  shows "\<forall>x. x \<noteq> d \<longrightarrow> st' x = st x"
    and "board (st' d) = board (st d)" "guess_board (st' d) = guess_board (st d)"
    and "encrypted_board (st' d) = encrypted_board (st d)"
    and "public_key (st' d) = public_key (st d)" "private_key (st' d) = private_key (st d)"
    and "total_ship_cells (st' d) = total_ship_cells (st d)"
    and "player_name (st' d) = player_name (st d)"
  using assms
  by (auto simp: check_hit_homomorphic_def Let_def split: sum.splits if_splits prod.splits)

section \<open>One iteration of the game loop\<close>

lemma game_turn_repeated:
  assumes "r < length (guess_board (players s (current_player s)))"
    "c < length (guess_board (players s (current_player s)) ! r)"
    "guess_board (players s (current_player s)) ! r ! c \<noteq> CHR '' ''"
  shows "game_turn s (r, c) k = Inr (s\<lparr>turn := turn s + 1\<rparr>)"
  using assms by (simp add: game_turn_def Let_def)

lemma game_turn_fresh:
  assumes "r < length (guess_board (players s (current_player s)))"
    "c < length (guess_board (players s (current_player s)) ! r)"
    "guess_board (players s (current_player s)) ! r ! c = CHR '' ''"
  shows "game_turn s (r, c) k =
    (case check_hit_homomorphic (players s) (opponent s) r c (current_player s) k of
       Inl e \<Rightarrow> Inl e
     | Inr (res, st) \<Rightarrow>
         (let st2 = st(current_player s :=
                         set_guess (st (current_player s)) r c
                           (if fst res = ''hit'' \<or> fst res = ''sunk'' then CHR ''X''
                            else CHR ''O''))
          in if has_lost (st2 (opponent s))
             then Inr (s\<lparr>turn := turn s + 1, players := st2, game_over := True\<rparr>)
             else Inr (s\<lparr>turn := turn s + 1, players := st2,
                         current_player := opponent s, opponent := current_player s\<rparr>)))"
  using assms
  by (auto simp: game_turn_def Let_def split: sum.splits prod.splits)

lemma wf_grid_update: "wf_grid g \<Longrightarrow> wf_grid (g[r := (g ! r)[c := v]])"
proof -
  assume wf: "wf_grid g"
  show ?thesis
  proof (cases "r < length g")
    case True
    have "set (g[r := (g ! r)[c := v]]) \<subseteq> insert ((g ! r)[c := v]) (set g)"
      by (rule set_update_subset_insert)
    moreover have "length ((g ! r)[c := v]) = 10"
      using wf True by (simp add: wf_grid_def)
    ultimately show ?thesis
      using wf unfolding wf_grid_def by auto
  next
    case False
    then have "g[r := (g ! r)[c := v]] = g" by (simp add: list_update_beyond)
    with wf show ?thesis by simp
  qed
qed

lemma grid_update_nth:
  assumes "wf_grid g" "r < 10" "c < 10" "r' < 10" "c' < 10"
  shows "g[r := (g ! r)[c := v]] ! r' ! c' = (if (r', c') = (r, c) then v else g ! r' ! c')"
  using assms by (auto simp: wf_grid_def nth_list_update)

lemma player_inv_set_guess: "player_inv p \<Longrightarrow> player_inv (set_guess p r c ch)"
  by (simp add: player_inv_def set_guess_def wf_grid_update)

lemma set_guess_simps [simp]:
  "board (set_guess p r c ch) = board p" "ships (set_guess p r c ch) = ships p"
  "encrypted_board (set_guess p r c ch) = encrypted_board p"
  "public_key (set_guess p r c ch) = public_key p"
  "private_key (set_guess p r c ch) = private_key p"
  "hits_received (set_guess p r c ch) = hits_received p"
  "total_ship_cells (set_guess p r c ch) = total_ship_cells p"
  "guess_board (set_guess p r c ch) = (guess_board p)[r := (guess_board p ! r)[c := ch]]"
  by (simp_all add: set_guess_def)

lemma map_update_same: "f x = f (xs ! i) \<Longrightarrow> map f (xs[i := x]) = map f xs"
  by (cases "i < length xs") (simp_all add: map_update list_update_same_conv list_update_beyond)

lemma player_inv_hit:
  assumes inv: "player_inv p" and i: "i < length (ships p)"
    and g: "g \<in> set (coordinates (ships p ! i))"
  shows "player_inv (p\<lparr>hits_received := n,
            ships := (ships p)[i := (ships p ! i)\<lparr>hits := insert g (hits (ships p ! i))\<rparr>]\<rparr>)"
proof -
  let ?sh = "(ships p ! i)\<lparr>hits := insert g (hits (ships p ! i))\<rparr>"
  let ?fleet = "(ships p)[i := ?sh]"
  have c: "map coordinates ?fleet = map coordinates (ships p)"
    and z: "map ship_size ?fleet = map ship_size (ships p)"
    and n: "map ship_name ?fleet = map ship_name (ships p)"
    by (simp_all add: map_update_same)
  have "\<forall>s \<in> set ?fleet. length (coordinates s) = ship_size s \<and> hits s \<subseteq> set (coordinates s)"
  proof
    fix s assume "s \<in> set ?fleet"
    then have "s = ?sh \<or> s \<in> set (ships p)"
      using set_update_subset_insert [of "ships p" i ?sh] by auto
    moreover from inv i have "length (coordinates (ships p ! i)) = ship_size (ships p ! i)"
      "hits (ships p ! i) \<subseteq> set (coordinates (ships p ! i))"
      by (auto simp: player_inv_def)
    ultimately show "length (coordinates s) = ship_size s \<and> hits s \<subseteq> set (coordinates s)"
      using inv g by (auto simp: player_inv_def)
  qed
  with inv c z n show ?thesis by (simp add: player_inv_def)
qed

lemma player_inv_coordinates_range:
  assumes "player_inv p" "sh \<in> set (ships p)" "(r, c) \<in> set (coordinates sh)"
  shows "r < 10 \<and> c < 10"
proof -
  from assms(2,3) have "(r, c) \<in> set (concat (map coordinates (ships p)))" by auto
  with assms(1) show ?thesis by (auto simp: player_inv_def board_marks_def)
qed

lemma player_inv_hits_range:
  assumes "player_inv p" "sh \<in> set (ships p)" "(r, c) \<in> hits sh"
  shows "r < 10 \<and> c < 10"
proof -
  from assms have "(r, c) \<in> set (coordinates sh)" by (auto simp: player_inv_def)
  with player_inv_coordinates_range [OF assms(1,2)] show ?thesis by blast
qed

lemma other_neq [simp]: "other x \<noteq> x" "x \<noteq> other x"
  by (cases x; simp)+

lemma other_other [simp]: "other (other x) = x"
  by (cases x) simp_all

lemma pref_cases: "y = x \<or> y = other x"
  by (cases x; cases y) simp_all

lemma check_hit_decrypted:
  assumes "check_hit_homomorphic st d r c a k = Inr (res, st')"
  obtains v where "decrypted_val (st d) r c k = Inr v"
  using assms by (auto simp: check_hit_homomorphic_def split: sum.splits)

text \<open>What the hit check does to a defender that satisfies the invariant.\<close>

lemma check_hit_inv_cases:
  assumes inv: "player_inv (st d)" and rc: "r < 10" "c < 10"
    and ch: "check_hit_homomorphic st d r c a k = Inr (res, st')"
  obtains (miss) "decrypted_val (st d) r c k = Inr 0" "res = (''miss'', None)" "st' = st"
  | (hit) v i where "decrypted_val (st d) r c k = Inr v" "v \<noteq> 0"
      "board (st d) ! r ! c = 1" "i < length (ships (st d))"
      "(r, c) \<in> set (coordinates (ships (st d) ! i))"
      "\<forall>j < length (ships (st d)). j \<noteq> i \<longrightarrow> (r, c) \<notin> set (coordinates (ships (st d) ! j))"
      "res = (if is_sunk ((ships (st d) ! i)
                                \<lparr>hits := insert (r, c) (hits (ships (st d) ! i))\<rparr>)
                   then (''sunk'', Some (ship_name (ships (st d) ! i))) else (''hit'', None))"
      "st' = st(d := (st d)\<lparr>hits_received := hits_received (st d) + 1,
                          ships := (ships (st d))
                            [i := (ships (st d) ! i)
                                    \<lparr>hits := insert (r, c) (hits (ships (st d) ! i))\<rparr>]\<rparr>)"
proof -
  from ch obtain v where v: "decrypted_val (st d) r c k = Inr v"
    by (rule check_hit_decrypted)
  note bit = player_inv_bit [OF inv rc]
  show thesis
  proof (cases "v = 0")
    case True
    with v check_hit_miss [of st d r c k a] ch miss show thesis by simp
  next
    case False
    have one: "board (st d) ! r ! c = 1"
    proof (rule ccontr)
      assume "board (st d) ! r ! c \<noteq> 1"
      with bit have "board (st d) ! r ! c = 0" by simp
      from decrypted_val_water [OF inv rc this v] False show False by simp
    qed
    from player_inv_holder [OF inv rc one] obtain i where
      i: "i < length (ships (st d))" "(r, c) \<in> set (coordinates (ships (st d) ! i))"
      "\<forall>j < length (ships (st d)). j \<noteq> i \<longrightarrow> (r, c) \<notin> set (coordinates (ships (st d) ! j))"
      by blast
    from check_hit_hit [where st = st and d = d and a = a, OF v False i] ch have
      "res = (if is_sunk ((ships (st d) ! i)
                                \<lparr>hits := insert (r, c) (hits (ships (st d) ! i))\<rparr>)
                   then (''sunk'', Some (ship_name (ships (st d) ! i))) else (''hit'', None))"
      "st' = st(d := (st d)\<lparr>hits_received := hits_received (st d) + 1,
                          ships := (ships (st d))
                            [i := (ships (st d) ! i)
                                    \<lparr>hits := insert (r, c) (hits (ships (st d) ! i))\<rparr>]\<rparr>)"
      by simp_all
    with hit [OF v False one i] show thesis by blast
  qed
qed

lemma game_inv_fields:
  assumes "game_inv s"
  shows "player_inv (players s x)" "opponent s = other (current_player s)"
    "hits_received (players s x) \<le> 16"
    "\<not> game_over s \<Longrightarrow> hits_received (players s x) < 16"
    "sh \<in> set (ships (players s x)) \<Longrightarrow> (r, c) \<in> hits sh \<Longrightarrow>
       guess_board (players s (other x)) ! r ! c = CHR ''X''"
  using assms unfolding game_inv_def by blast+

lemma player_inv_total: "player_inv p \<Longrightarrow> total_ship_cells p = 16"
  by (simp add: player_inv_def)

lemma player_inv_guess: "player_inv p \<Longrightarrow> wf_grid (guess_board p)"
  by (simp add: player_inv_def)

text \<open>The invariant after the guess board and the defender have been updated.\<close>

lemma game_inv_step:
  assumes inv: "game_inv s" and go: "\<not> game_over s"
    and pl: "\<forall>x. player_inv (st2 x)"
    and cur: "hits_received (st2 (current_player s))
                = hits_received (players s (current_player s))"
    and opp: "hits_received (st2 (opponent s)) \<le> hits_received (players s (opponent s)) + 1"
    and link: "\<forall>x. \<forall>sh \<in> set (ships (st2 x)). \<forall>(r, c) \<in> hits sh.
                 guess_board (st2 (other x)) ! r ! c = CHR ''X''"
  shows "game_inv (if has_lost (st2 (opponent s))
                   then s\<lparr>turn := turn s + 1, players := st2, game_over := True\<rparr>
                   else s\<lparr>turn := turn s + 1, players := st2,
                          current_player := opponent s, opponent := current_player s\<rparr>)"
proof -
  note f = game_inv_fields [OF inv]
  have o: "opponent s = other (current_player s)" by (rule f(2))
  have lt: "hits_received (players s x) < 16" for x using f(4) [OF go] .
  have le: "hits_received (st2 x) \<le> 16" for x
    using pref_cases [of x "current_player s"] cur opp lt [of "current_player s"]
      lt [of "opponent s"] o
    by auto
  have total: "total_ship_cells (st2 x) = 16" for x
    using pl player_inv_total by blast
  show ?thesis
  proof (cases "has_lost (st2 (opponent s))")
    case True
    with pl o le link show ?thesis
      by (simp add: game_inv_def)
  next
    case False
    then have "hits_received (st2 (opponent s)) < 16"
      by (simp add: has_lost_def total)
    moreover have "hits_received (st2 (current_player s)) < 16"
      using cur lt by simp
    ultimately have "hits_received (st2 x) < 16" for x
      using pref_cases [of x "current_player s"] o by auto
    with False pl o le link show ?thesis
      by (simp add: game_inv_def)
  qed
qed

lemma if_Inr: "(if b then Inr y else Inr z) = Inr (if b then y else z)"
  by simp

lemma link_update:
  assumes wf: "wf_grid g" and rc: "r < 10" "c < 10"
    and rg: "\<forall>(r', c') \<in> H. r' < 10 \<and> c' < 10"
    and old: "\<forall>(r', c') \<in> H. g ! r' ! c' = x"
    and new: "g ! r ! c \<noteq> x \<or> v = x"
  shows "\<forall>(r', c') \<in> H. g[r := (g ! r)[c := v]] ! r' ! c' = x"
proof (clarify)
  fix r' c' assume h: "(r', c') \<in> H"
  with rg have r': "r' < 10" "c' < 10" by auto
  from h old have o: "g ! r' ! c' = x" by auto
  show "g[r := (g ! r)[c := v]] ! r' ! c' = x"
    using grid_update_nth [OF wf rc r', of v] o new by auto
qed

lemma game_inv_turn:
  assumes inv: "game_inv s" and go: "\<not> game_over s" and rc: "r \<le> 9" "c \<le> 9"
    and gt: "game_turn s (r, c) k = Inr s'"
  shows "game_inv s'"
proof -
  note f = game_inv_fields [OF inv]
  let ?cur = "current_player s" and ?opp = "opponent s"
  let ?st = "players s"
  have o: "?opp = other ?cur" by (rule f(2))
  have ne: "?cur \<noteq> ?opp" by (simp add: o)
  have wf: "wf_grid (guess_board (?st x))" for x
    using f(1) [of x] by (rule player_inv_guess)
  from rc have rc10: "r < 10" "c < 10" by simp_all
  from wf [of ?cur] rc10 have len: "r < length (guess_board (?st ?cur))"
    "c < length (guess_board (?st ?cur) ! r)"
    by (simp_all add: wf_grid_def)
  show ?thesis
  proof (cases "guess_board (?st ?cur) ! r ! c = CHR '' ''")
    case False
    from game_turn_repeated [OF len False, of k] gt have "s' = s\<lparr>turn := turn s + 1\<rparr>"
      by simp
    with inv show ?thesis by (simp add: game_inv_def)
  next
    case True
    note fresh = game_turn_fresh [OF len True, of k]
    from fresh gt obtain res st where
      ch: "check_hit_homomorphic ?st ?opp r c ?cur k = Inr (res, st)"
      by (auto split: sum.splits)
    let ?ch = "if fst res = ''hit'' \<or> fst res = ''sunk'' then CHR ''X'' else CHR ''O''"
    let ?st2 = "st(?cur := set_guess (st ?cur) r c ?ch)"
    have "game_turn s (r, c) k = Inr (if has_lost (?st2 ?opp)
                   then s\<lparr>turn := turn s + 1, players := ?st2, game_over := True\<rparr>
                   else s\<lparr>turn := turn s + 1, players := ?st2,
                          current_player := ?opp, opponent := ?cur\<rparr>)"
      unfolding fresh ch by (simp only: sum.case prod.case Let_def if_Inr)
    with gt have s': "s' = (if has_lost (?st2 ?opp)
                   then s\<lparr>turn := turn s + 1, players := ?st2, game_over := True\<rparr>
                   else s\<lparr>turn := turn s + 1, players := ?st2,
                          current_player := ?opp, opponent := ?cur\<rparr>)"
      by (simp only: sum.inject)
    from check_hit_frame(1) [OF ch] ne have stc: "st ?cur = ?st ?cur" by blast
    have g2: "guess_board (?st2 ?cur)
        = (guess_board (?st ?cur))[r := (guess_board (?st ?cur) ! r)[c := ?ch]]"
      by (simp add: stc)
    have sh2: "ships (?st2 ?cur) = ships (?st ?cur)" by (simp add: stc)
    have st2o: "?st2 ?opp = st ?opp" using ne by simp
    have hr: "hits_received (?st2 ?cur) = hits_received (?st ?cur)" by (simp add: stc)
    have linkc: "\<forall>sh \<in> set (ships (?st2 ?cur)). \<forall>(r', c') \<in> hits sh.
                   guess_board (?st2 ?opp) ! r' ! c' = CHR ''X''"
    proof (clarify)
      fix sh r' c' assume "sh \<in> set (ships (?st2 ?cur))" and h: "(r', c') \<in> hits sh"
      then have "sh \<in> set (ships (?st ?cur))" unfolding sh2 by simp
      from f(5) [OF this h] have "guess_board (?st ?opp) ! r' ! c' = CHR ''X''"
        by (simp add: o)
      then show "guess_board (?st2 ?opp) ! r' ! c' = CHR ''X''"
        unfolding st2o check_hit_frame(3) [OF ch] .
    qed
    from f(1) [of ?opp] rc10 ch show ?thesis
    proof (cases rule: check_hit_inv_cases)
      case miss
      then have chO: "?ch = CHR ''O''" by simp
      have pl: "\<forall>x. player_inv (?st2 x)"
        using f(1) miss(3) by (auto intro: player_inv_set_guess)
      have hro: "hits_received (?st2 ?opp) \<le> hits_received (?st ?opp) + 1"
        using miss(3) ne by simp
      have linko: "\<forall>sh \<in> set (ships (?st2 ?opp)). \<forall>(r', c') \<in> hits sh.
                   guess_board (?st2 ?cur) ! r' ! c' = CHR ''X''"
      proof
        fix sh assume "sh \<in> set (ships (?st2 ?opp))"
        with miss(3) ne have sh: "sh \<in> set (ships (?st ?opp))" by simp
        have rg: "\<forall>(r', c') \<in> hits sh. r' < 10 \<and> c' < 10"
          using player_inv_hits_range [OF f(1) [of ?opp] sh] by blast
        have old: "\<forall>(r', c') \<in> hits sh. guess_board (?st ?cur) ! r' ! c' = CHR ''X''"
          using f(5) [OF sh] o by auto
        have "guess_board (?st ?cur) ! r ! c \<noteq> CHR ''X'' \<or> ?ch = CHR ''X''"
          using True by simp
        from link_update [OF wf [of ?cur] rc10 rg old this]
        show "\<forall>(r', c') \<in> hits sh. guess_board (?st2 ?cur) ! r' ! c' = CHR ''X''"
          unfolding g2 .
      qed
      have link: "\<forall>x. \<forall>sh \<in> set (ships (?st2 x)). \<forall>(r', c') \<in> hits sh.
                 guess_board (?st2 (other x)) ! r' ! c' = CHR ''X''"
      proof
        fix x
        from pref_cases [of x ?cur] o have "x = ?cur \<or> x = ?opp" by simp
        then show "\<forall>sh \<in> set (ships (?st2 x)). \<forall>(r', c') \<in> hits sh.
                 guess_board (?st2 (other x)) ! r' ! c' = CHR ''X''"
        proof
          assume "x = ?cur"
          with linkc o show ?thesis by simp
        next
          assume x: "x = ?opp"
          then have "other x = ?cur" by (simp add: o)
          with linko x show ?thesis by simp
        qed
      qed
      from game_inv_step [OF inv go pl hr hro link] s' show ?thesis by simp
    next
      case (hit v i)
      let ?old = "ships (?st ?opp) ! i"
      let ?new = "?old\<lparr>hits := insert (r, c) (hits ?old)\<rparr>"
      from hit(7) have chX: "?ch = CHR ''X''" by (simp split: if_splits)
      have sto: "st ?opp = (?st ?opp)\<lparr>hits_received := hits_received (?st ?opp) + 1,
                          ships := (ships (?st ?opp))[i := ?new]\<rparr>"
        using hit(8) by simp
      have plo: "player_inv (st ?opp)"
        unfolding sto by (rule player_inv_hit [OF f(1) hit(4,5)])
      have pl: "\<forall>x. player_inv (?st2 x)"
      proof
        fix x
        from pref_cases [of x ?cur] o have "x = ?cur \<or> x = ?opp" by simp
        then show "player_inv (?st2 x)"
        proof
          assume "x = ?cur"
          then show ?thesis using f(1) [of ?cur] by (simp add: stc player_inv_set_guess)
        next
          assume "x = ?opp"
          with plo ne show ?thesis by simp
        qed
      qed
      have hro: "hits_received (?st2 ?opp) \<le> hits_received (?st ?opp) + 1"
        unfolding st2o sto by simp
      have linko: "\<forall>sh \<in> set (ships (?st2 ?opp)). \<forall>(r', c') \<in> hits sh.
                   guess_board (?st2 ?cur) ! r' ! c' = CHR ''X''"
      proof
        fix sh assume "sh \<in> set (ships (?st2 ?opp))"
        then have "sh \<in> set ((ships (?st ?opp))[i := ?new])"
          unfolding st2o sto by simp
        then have cases: "sh = ?new \<or> sh \<in> set (ships (?st ?opp))"
          using set_update_subset_insert [of "ships (?st ?opp)" i ?new] by auto
        have oldi: "?old \<in> set (ships (?st ?opp))" using hit(4) by simp
        have gX: "guess_board (?st2 ?cur) ! r ! c = CHR ''X''"
          unfolding g2 using grid_update_nth [OF wf [of ?cur] rc10 rc10] chX by simp
        have keep: "\<forall>(r', c') \<in> hits sh0. guess_board (?st2 ?cur) ! r' ! c' = CHR ''X''"
          if sh0: "sh0 \<in> set (ships (?st ?opp))" for sh0
        proof -
          have rg: "\<forall>(r', c') \<in> hits sh0. r' < 10 \<and> c' < 10"
            using player_inv_hits_range [OF f(1) [of ?opp] sh0] by blast
          have old: "\<forall>(r', c') \<in> hits sh0. guess_board (?st ?cur) ! r' ! c' = CHR ''X''"
            using f(5) [OF sh0] o by auto
          have "guess_board (?st ?cur) ! r ! c \<noteq> CHR ''X'' \<or> ?ch = CHR ''X''"
            using True by simp
          from link_update [OF wf [of ?cur] rc10 rg old this]
          show ?thesis unfolding g2 .
        qed
        from cases show "\<forall>(r', c') \<in> hits sh. guess_board (?st2 ?cur) ! r' ! c' = CHR ''X''"
        proof
          assume "sh = ?new"
          with keep [OF oldi] gX show ?thesis by auto
        next
          assume "sh \<in> set (ships (?st ?opp))"
          then show ?thesis by (rule keep)
        qed
      qed
      have link: "\<forall>x. \<forall>sh \<in> set (ships (?st2 x)). \<forall>(r', c') \<in> hits sh.
                 guess_board (?st2 (other x)) ! r' ! c' = CHR ''X''"
      proof
        fix x
        from pref_cases [of x ?cur] o have "x = ?cur \<or> x = ?opp" by simp
        then show "\<forall>sh \<in> set (ships (?st2 x)). \<forall>(r', c') \<in> hits sh.
                 guess_board (?st2 (other x)) ! r' ! c' = CHR ''X''"
        proof
          assume "x = ?cur"
          with linkc o show ?thesis by simp
        next
          assume x: "x = ?opp"
          then have "other x = ?cur" by (simp add: o)
          with linko x show ?thesis by simp
        qed
      qed
      from game_inv_step [OF inv go pl hr hro link] s' show ?thesis by simp
    qed
  qed
qed

lemma reachable_inv: "reachable s \<Longrightarrow> game_inv s"
proof (induction rule: reachable.induct)
  case (start k1 k2 rng s)
  then show ?case by (rule game_inv_start)
next
  case (next_turn s guess_row guess_col k s')
  from game_inv_turn [OF next_turn.IH next_turn.hyps(2,3,4,7)] show ?case .
qed

subsection \<open>The sample game\<close>

lemma demo_encrypt:
  assumes "1 \<le> max_int \<lparr>pub_n = p * q\<rparr>"
  shows "encrypt_board ((generate_keys (Player name) p q)\<lparr>board := demo_board, ships := demo_fleet\<rparr>)
         = Inr (demo_player name p q)"
proof -
  let ?g = "generate_keys (Player name) p q"
  let ?p1 = "?g\<lparr>board := demo_board, ships := demo_fleet\<rparr>"
  have b0: "board ?g = replicate 10 (replicate 10 0)" by (simp add: Player_def)
  from setup_board_marks(1) [OF demo_setup b0]
  have bm: "board_marks (board ?p1) (concat (map coordinates (ships ?p1)))" .
  have pk: "public_key ?p1 = Some \<lparr>pub_n = p * q\<rparr>" by simp
  have em: "encrypted_board ?p1 = Map.empty" by (simp add: Player_def)
  from encrypt_board_closed [OF pk assms bm em] show ?thesis
    by (simp add: demo_player_def demo_cipher_def cong: if_cong)
qed

lemma demo_main_setup: "main_setup (1999, 2003) (2011, 2017) demo_rng = Some (Inr demo_state)"
proof -
  have a: "1 \<le> max_int \<lparr>pub_n = 1999 * 2003\<rparr>" and b: "1 \<le> max_int \<lparr>pub_n = 2011 * 2017\<rparr>"
    by (simp_all add: max_int_def)
  show ?thesis
    unfolding main_setup_def Let_def fst_conv snd_conv
    by (simp add: demo_setup demo_encrypt [OF a] demo_encrypt [OF b] demo_state_def)
qed

lemma demo_reachable: "reachable demo_state"
  using demo_main_setup by (rule reachable.start)

lemma demo_inv: "game_inv demo_state"
  using demo_reachable by (rule reachable_inv)

lemma reachable_player_inv: "reachable s \<Longrightarrow> player_inv (players s x)"
  by (rule game_inv_fields(1) [OF reachable_inv])

lemma demo_keys:
  "public_key (players demo_state Player1) = Some \<lparr>pub_n = 4003997\<rparr>"
  "public_key (players demo_state Player2) = Some \<lparr>pub_n = 4056187\<rparr>"
  "999999 \<le> max_int \<lparr>pub_n = 4003997\<rparr>" "999999 \<le> max_int \<lparr>pub_n = 4056187\<rparr>"
  by (simp_all add: demo_state_def demo_player_def max_int_def)

lemma demo_boards:
  "board (players demo_state x) = demo_board"
  by (cases x) (simp_all add: demo_state_def demo_player_def)

lemma demo_board_cells:
  "demo_board ! 0 ! 0 = 1" "demo_board ! 6 ! 6 = 0"
  by (simp_all add: demo_board_def)

section \<open>The classification of a guess\<close>

text \<open>
  C1. At every state that the game loop reaches, for every cell of the defender's board
  and every blinding factor in the sampled range 1 to 999999, the decrypted blinded value
  is the factor times the bit of the cell, it is zero exactly when the bit is zero, and
  the hit check returns a result other than "miss" exactly when the bit is 1. The modulus
  of the defender's key is as large as the key generation of the library makes it; of
  this only \<open>999999 \<le> max_int pk\<close> is used.
\<close>

theorem hit_check_classification:
  assumes "reachable s" and "r \<le> 9" "c \<le> 9" and "1 \<le> k" "k \<le> 999999"
    and "public_key (players s d) = Some pk" and "999999 \<le> max_int pk"
  shows "decrypted_val (players s d) r c k = Inr (k * board (players s d) ! r ! c) \<and>
         (k * board (players s d) ! r ! c = 0 \<longleftrightarrow> board (players s d) ! r ! c = 0) \<and>
         (\<exists>res st'. check_hit_homomorphic (players s) d r c a k = Inr (res, st') \<and>
                    (fst res \<noteq> ''miss'' \<longleftrightarrow> board (players s d) ! r ! c = 1))"
proof -
  let ?p = "players s d"
  let ?b = "board ?p ! r ! c"
  from assms(1) have inv: "player_inv ?p" by (rule reachable_player_inv)
  from assms(2,3) have rc: "r < 10" "c < 10" by simp_all
  from assms(4,5,7) have "\<bar>k\<bar> \<le> max_int pk" by simp
  from decrypted_val_blinded [OF inv rc assms(6) this]
  have v: "decrypted_val ?p r c k = Inr (k * ?b)" .
  from assms(4) have z: "k * ?b = 0 \<longleftrightarrow> ?b = 0" by simp
  from player_inv_bit [OF inv rc] have "?b = 0 \<or> ?b = 1" .
  then have "\<exists>res st'. check_hit_homomorphic (players s) d r c a k = Inr (res, st') \<and>
                    (fst res \<noteq> ''miss'' \<longleftrightarrow> ?b = 1)"
  proof
    assume b: "?b = 0"
    with v have "decrypted_val ?p r c k = Inr 0" by simp
    from check_hit_miss [where st = "players s" and d = d and a = a, OF this] b
    show ?thesis by simp
  next
    assume b: "?b = 1"
    from player_inv_holder [OF inv rc b] obtain i where
      i: "i < length (ships ?p)" "(r, c) \<in> set (coordinates (ships ?p ! i))"
      "\<forall>j < length (ships ?p). j \<noteq> i \<longrightarrow> (r, c) \<notin> set (coordinates (ships ?p ! j))"
      by blast
    from b assms(4) have nz: "k * ?b \<noteq> 0" by simp
    from check_hit_hit [where st = "players s" and d = d and a = a, OF v nz i] b
    show ?thesis by simp
  qed
  with v z show ?thesis by blast
qed

theorem hit_check_classification_witness:
  "reachable demo_state \<and>
   public_key (players demo_state Player2) = Some \<lparr>pub_n = 4056187\<rparr> \<and>
   999999 \<le> max_int \<lparr>pub_n = 4056187\<rparr> \<and>
   board (players demo_state Player2) ! 0 ! 0 = 1 \<and>
   decrypted_val (players demo_state Player2) 0 0 7 = Inr 7 \<and>
   (\<exists>res st'. check_hit_homomorphic (players demo_state) Player2 0 0 Player1 7 = Inr (res, st') \<and>
              fst res \<noteq> ''miss'')"
  using hit_check_classification [OF demo_reachable _ _ _ _ demo_keys(2) demo_keys(4),
      of 0 0 7 Player1]
    demo_reachable demo_keys(2,4)
  by (simp add: demo_boards demo_board_cells)

section \<open>The outcomes of an iteration\<close>

lemma game_turn_cases:
  assumes "game_turn s (r, c) k = Inr s'"
  obtains (repeated) "guess_board (players s (current_player s)) ! r ! c \<noteq> CHR '' ''"
      "s' = s\<lparr>turn := turn s + 1\<rparr>"
  | (fresh) res st where "guess_board (players s (current_player s)) ! r ! c = CHR '' ''"
      "check_hit_homomorphic (players s) (opponent s) r c (current_player s) k = Inr (res, st)"
      "s' = (if has_lost
                  ((st(current_player s :=
                         set_guess (st (current_player s)) r c
                           (if fst res = ''hit'' \<or> fst res = ''sunk'' then CHR ''X''
                            else CHR ''O''))) (opponent s))
             then s\<lparr>turn := turn s + 1,
                    players := st(current_player s :=
                         set_guess (st (current_player s)) r c
                           (if fst res = ''hit'' \<or> fst res = ''sunk'' then CHR ''X''
                            else CHR ''O'')),
                    game_over := True\<rparr>
             else s\<lparr>turn := turn s + 1,
                    players := st(current_player s :=
                         set_guess (st (current_player s)) r c
                           (if fst res = ''hit'' \<or> fst res = ''sunk'' then CHR ''X''
                            else CHR ''O'')),
                    current_player := opponent s, opponent := current_player s\<rparr>)"
proof -
  let ?cur = "current_player s"
  have len: "r < length (guess_board (players s ?cur))"
    "c < length (guess_board (players s ?cur) ! r)"
    using assms by (auto simp: game_turn_def Let_def split: if_splits)
  show thesis
  proof (cases "guess_board (players s ?cur) ! r ! c = CHR '' ''")
    case False
    from game_turn_repeated [OF len False, of k] assms have "s' = s\<lparr>turn := turn s + 1\<rparr>"
      by simp
    with False show thesis by (rule repeated)
  next
    case True
    note fr = game_turn_fresh [OF len True, of k]
    from fr assms obtain res st where
      ch: "check_hit_homomorphic (players s) (opponent s) r c ?cur k = Inr (res, st)"
      by (auto split: sum.splits)
    let ?st2 = "st(?cur := set_guess (st ?cur) r c
                  (if fst res = ''hit'' \<or> fst res = ''sunk'' then CHR ''X'' else CHR ''O''))"
    have "game_turn s (r, c) k = Inr (if has_lost (?st2 (opponent s))
                   then s\<lparr>turn := turn s + 1, players := ?st2, game_over := True\<rparr>
                   else s\<lparr>turn := turn s + 1, players := ?st2,
                          current_player := opponent s, opponent := ?cur\<rparr>)"
      unfolding fr ch by (simp only: sum.case prod.case Let_def if_Inr)
    with assms have "s' = (if has_lost (?st2 (opponent s))
                   then s\<lparr>turn := turn s + 1, players := ?st2, game_over := True\<rparr>
                   else s\<lparr>turn := turn s + 1, players := ?st2,
                          current_player := opponent s, opponent := ?cur\<rparr>)"
      by (simp only: sum.inject)
    with True ch show thesis by (rule fresh)
  qed
qed

text \<open>An iteration leaves the boards, the keys and the stored ciphertexts as they are.\<close>

lemma game_turn_frame:
  assumes "game_turn s g k = Inr s'"
  shows "board (players s' x) = board (players s x)"
    and "encrypted_board (players s' x) = encrypted_board (players s x)"
    and "public_key (players s' x) = public_key (players s x)"
    and "private_key (players s' x) = private_key (players s x)"
    and "total_ship_cells (players s' x) = total_ship_cells (players s x)"
proof -
  obtain r c where g: "g = (r, c)" by (cases g)
  from assms [unfolded g]
  have "board (players s' x) = board (players s x) \<and>
    encrypted_board (players s' x) = encrypted_board (players s x) \<and>
    public_key (players s' x) = public_key (players s x) \<and>
    private_key (players s' x) = private_key (players s x) \<and>
    total_ship_cells (players s' x) = total_ship_cells (players s x)"
  proof (cases rule: game_turn_cases)
    case repeated
    then show ?thesis by simp
  next
    case (fresh res st)
    note fr = check_hit_frame [OF fresh(2)]
    have same: "board (st x) = board (players s x) \<and>
      encrypted_board (st x) = encrypted_board (players s x) \<and>
      public_key (st x) = public_key (players s x) \<and>
      private_key (st x) = private_key (players s x) \<and>
      total_ship_cells (st x) = total_ship_cells (players s x)"
    proof (cases "x = opponent s")
      case True
      with fr(2,4,5,6,7) show ?thesis by simp
    next
      case False
      with fr(1) have "st x = players s x" by blast
      then show ?thesis by simp
    qed
    let ?st2 = "st(current_player s := set_guess (st (current_player s)) r c
                  (if fst res = ''hit'' \<or> fst res = ''sunk'' then CHR ''X'' else CHR ''O''))"
    have p: "players s' = ?st2"
      unfolding fresh(3) by (simp only: if_distrib [of players] cong: if_cong) simp
    have "board (?st2 x) = board (st x) \<and>
      encrypted_board (?st2 x) = encrypted_board (st x) \<and>
      public_key (?st2 x) = public_key (st x) \<and>
      private_key (?st2 x) = private_key (st x) \<and>
      total_ship_cells (?st2 x) = total_ship_cells (st x)"
      by (cases "x = current_player s") simp_all
    with same show ?thesis unfolding p by simp
  qed
  then show "board (players s' x) = board (players s x)"
    and "encrypted_board (players s' x) = encrypted_board (players s x)"
    and "public_key (players s' x) = public_key (players s x)"
    and "private_key (players s' x) = private_key (players s x)"
    and "total_ship_cells (players s' x) = total_ship_cells (players s x)"
    by simp_all
qed

section \<open>The stored ciphertexts\<close>

text \<open>
  C2. At every state that the game loop reaches, so at every time after \<open>encrypt_board\<close>
  has run, the stored ciphertext of every cell of a player decrypts under the private key
  of that player to the bit of the cell; and neither a hit check nor an iteration of the
  game loop changes a stored ciphertext, a board or a key.
\<close>

theorem ciphertext_invariant:
  assumes "reachable s" and "r \<le> 9" "c \<le> 9"
  shows "(\<exists>sk ct. private_key (players s x) = Some sk \<and>
                  encrypted_board (players s x) (r, c) = Some ct \<and>
                  decrypt sk ct = Inr (board (players s x) ! r ! c)) \<and>
         (\<forall>d r' c' a k res st'.
             check_hit_homomorphic (players s) d r' c' a k = Inr (res, st') \<longrightarrow>
               encrypted_board (st' x) = encrypted_board (players s x) \<and>
               board (st' x) = board (players s x) \<and>
               private_key (st' x) = private_key (players s x)) \<and>
         (\<forall>g k s'. game_turn s g k = Inr s' \<longrightarrow>
               encrypted_board (players s' x) = encrypted_board (players s x) \<and>
               board (players s' x) = board (players s x) \<and>
               private_key (players s' x) = private_key (players s x))"
proof -
  let ?p = "players s x"
  from assms(1) have inv: "player_inv ?p" by (rule reachable_player_inv)
  from assms(2,3) have rc: "r < 10" "c < 10" by simp_all
  from inv rc obtain pk sk where k: "private_key ?p = Some sk" "priv_public_key sk = pk"
    "encrypted_board ?p (r, c) = Some \<lparr>enc_public_key = pk, enc_residue = board ?p ! r ! c\<rparr>"
    "encrypt pk (board ?p ! r ! c) = Inr \<lparr>enc_public_key = pk, enc_residue = board ?p ! r ! c\<rparr>"
    by (rule player_inv_cipher)
  from decrypt_encrypt [OF k(4,2)] k(1,3)
  have one: "\<exists>sk ct. private_key ?p = Some sk \<and> encrypted_board ?p (r, c) = Some ct \<and>
                  decrypt sk ct = Inr (board ?p ! r ! c)"
    by blast
  have two: "encrypted_board (st' x) = encrypted_board ?p \<and> board (st' x) = board ?p \<and>
             private_key (st' x) = private_key ?p"
    if ch: "check_hit_homomorphic (players s) d r' c' a k = Inr (res, st')"
    for d r' c' a k res st'
  proof (cases "x = d")
    case True
    with check_hit_frame(2,4,6) [OF ch] show ?thesis by simp
  next
    case False
    with check_hit_frame(1) [OF ch] have "st' x = ?p" by blast
    then show ?thesis by simp
  qed
  have three: "encrypted_board (players s' x) = encrypted_board ?p \<and>
               board (players s' x) = board ?p \<and>
               private_key (players s' x) = private_key ?p"
    if "game_turn s g k = Inr s'" for g k s'
    using game_turn_frame(1,2,4) [OF that] by simp
  from one two three show ?thesis by blast
qed

subsection \<open>The first two iterations of the sample game\<close>

lemma demo_player_simps [simp]:
  "board (demo_player name p q) = demo_board"
  "ships (demo_player name p q) = demo_fleet"
  "encrypted_board (demo_player name p q) = demo_cipher (p * q)"
  "public_key (demo_player name p q) = Some \<lparr>pub_n = p * q\<rparr>"
  "private_key (demo_player name p q)
     = Some \<lparr>priv_public_key = \<lparr>pub_n = p * q\<rparr>, priv_p = p, priv_q = q\<rparr>"
  "hits_received (demo_player name p q) = 0"
  "total_ship_cells (demo_player name p q) = 16"
  "guess_board (demo_player name p q) = replicate 10 (replicate 10 CHR '' '')"
  by (simp_all add: demo_player_def Player_def Ship_def)

lemma demo_state_simps [simp]:
  "players demo_state Player1 = demo_player ''Alice'' 1999 2003"
  "players demo_state Player2 = demo_player ''Bob'' 2011 2017"
  "turn demo_state = 0" "game_over demo_state = False"
  "current_player demo_state = Player1" "opponent demo_state = Player2"
  by (simp_all add: demo_state_def)

lemma demo_decrypted:
  "decrypted_val (demo_player ''Bob'' 2011 2017) 0 0 7 = Inr 7"
  "decrypted_val (demo_player ''Alice'' 1999 2003) 6 6 3 = Inr 0"
  "decrypted_val (demo_player ''Bob'' 2011 2017) 6 6 1 = Inr 0"
  "decrypted_val (demo_player ''Bob'' 2011 2017) 6 6 2 = Inr 0"
  by (simp_all add: decrypted_val_def demo_cipher_def demo_board_def enc_mul_def encode_def
      decrypt_def decode_def max_int_def Let_def)

lemma demo_check_hit:
  "check_hit_homomorphic (players demo_state) Player2 0 0 a 7
   = Inr ((''hit'', None),
          (players demo_state)
            (Player2 := (demo_player ''Bob'' 2011 2017)
               \<lparr>hits_received := 1,
                ships := demo_fleet[0 := (demo_fleet ! 0)\<lparr>hits := {(0, 0)}\<rparr>]\<rparr>))"
  by (simp add: check_hit_homomorphic_def demo_decrypted Let_def demo_fleet_def is_sunk_def)

lemma demo_turn1: "game_turn demo_state (0, 0) 7 = Inr demo_state1"
  by (simp add: game_turn_def Let_def replicate10 demo_check_hit has_lost_def demo_state1_def)

lemma demo_state1_simps [simp]:
  "players demo_state1 Player1 = set_guess (demo_player ''Alice'' 1999 2003) 0 0 CHR ''X''"
  "players demo_state1 Player2 = (demo_player ''Bob'' 2011 2017)
               \<lparr>hits_received := 1,
                ships := demo_fleet[0 := (demo_fleet ! 0)\<lparr>hits := {(0, 0)}\<rparr>]\<rparr>"
  "turn demo_state1 = 1" "game_over demo_state1 = False"
  "current_player demo_state1 = Player2" "opponent demo_state1 = Player1"
  by (simp_all add: demo_state1_def)

lemma decrypted_val_set_guess [simp]:
  "decrypted_val (set_guess p r' c' ch) r c k = decrypted_val p r c k"
  by (simp add: decrypted_val_def cong: option.case_cong sum.case_cong)

lemma demo_check_miss:
  "check_hit_homomorphic (players demo_state1) Player1 6 6 a 3
   = Inr ((''miss'', None), players demo_state1)"
  by (rule check_hit_miss) (simp add: demo_decrypted)

lemma demo_turn2: "game_turn demo_state1 (6, 6) 3 = Inr demo_state2"
  by (simp add: game_turn_def Let_def replicate10 demo_check_miss has_lost_def demo_state2_def)

lemma demo_reachable1: "reachable demo_state1"
  by (rule reachable.next_turn [OF demo_reachable _ _ _ _ _ demo_turn1]) simp_all

lemma demo_reachable2: "reachable demo_state2"
  by (rule reachable.next_turn [OF demo_reachable1 _ _ _ _ _ demo_turn2]) simp_all

lemma demo_state2_simps [simp]:
  "players demo_state2 Player1 = set_guess (demo_player ''Alice'' 1999 2003) 0 0 CHR ''X''"
  "players demo_state2 Player2 = set_guess ((demo_player ''Bob'' 2011 2017)
               \<lparr>hits_received := 1,
                ships := demo_fleet[0 := (demo_fleet ! 0)\<lparr>hits := {(0, 0)}\<rparr>]\<rparr>) 6 6 CHR ''O''"
  "turn demo_state2 = 2" "game_over demo_state2 = False"
  "current_player demo_state2 = Player1" "opponent demo_state2 = Player2"
  by (simp_all add: demo_state2_def)

theorem ciphertext_invariant_witness:
  "reachable demo_state \<and>
   private_key (players demo_state Player2)
     = Some \<lparr>priv_public_key = \<lparr>pub_n = 4056187\<rparr>, priv_p = 2011, priv_q = 2017\<rparr> \<and>
   encrypted_board (players demo_state Player2) (0, 0)
     = Some \<lparr>enc_public_key = \<lparr>pub_n = 4056187\<rparr>, enc_residue = 1\<rparr> \<and>
   board (players demo_state Player2) ! 0 ! 0 = 1 \<and>
   decrypt \<lparr>priv_public_key = \<lparr>pub_n = 4056187\<rparr>, priv_p = 2011, priv_q = 2017\<rparr>
     \<lparr>enc_public_key = \<lparr>pub_n = 4056187\<rparr>, enc_residue = 1\<rparr> = Inr 1 \<and>
   game_turn demo_state (0, 0) 7 = Inr demo_state1 \<and>
   encrypted_board (players demo_state1 Player2) = encrypted_board (players demo_state Player2)"
  using ciphertext_invariant [OF demo_reachable, of 0 0 Player2] demo_reachable demo_turn1
  by (simp add: demo_cipher_def demo_board_cells)

section \<open>The effect of the hit check\<close>

text \<open>
  C4. At a state that the game loop reaches, when the hit check returns for a cell of the
  grid: if the decrypted value is not 0 (a hit), exactly one ship of the defender holds
  the cell, the cell is added to the hits of that ship, \<open>hits_received\<close> of the defender is
  incremented by 1, nothing else in the store changes, and the result is "sunk" with the
  name of the ship if its hits have reached its size and "hit" with no name otherwise; if
  the decrypted value is 0 (a miss), the result is "miss" with no name and the store is
  unchanged.
\<close>

theorem hit_check_effect:
  assumes "reachable s" and "r \<le> 9" "c \<le> 9"
    and "check_hit_homomorphic (players s) d r c a k = Inr (res, st')"
  shows "\<exists>v. decrypted_val (players s d) r c k = Inr v \<and>
           (if v = 0 then res = (''miss'', None) \<and> st' = players s
            else \<exists>i < length (ships (players s d)).
                   (r, c) \<in> set (coordinates (ships (players s d) ! i)) \<and>
                   (\<forall>j < length (ships (players s d)).
                       j \<noteq> i \<longrightarrow> (r, c) \<notin> set (coordinates (ships (players s d) ! j))) \<and>
                   st' = (players s)
                     (d := (players s d)
                        \<lparr>hits_received := hits_received (players s d) + 1,
                         ships := (ships (players s d))
                           [i := (ships (players s d) ! i)
                              \<lparr>hits := insert (r, c) (hits (ships (players s d) ! i))\<rparr>]\<rparr>) \<and>
                   res = (if card (insert (r, c) (hits (ships (players s d) ! i)))
                             = ship_size (ships (players s d) ! i)
                          then (''sunk'', Some (ship_name (ships (players s d) ! i)))
                          else (''hit'', None)))"
proof -
  from assms(1) have inv: "player_inv (players s d)" by (rule reachable_player_inv)
  from assms(2,3) have rc: "r < 10" "c < 10" by simp_all
  from inv rc assms(4) show ?thesis
  proof (cases rule: check_hit_inv_cases)
    case miss
    then show ?thesis by simp
  next
    case (hit v i)
    from hit(7) have "res = (if card (insert (r, c) (hits (ships (players s d) ! i)))
                             = ship_size (ships (players s d) ! i)
                          then (''sunk'', Some (ship_name (ships (players s d) ! i)))
                          else (''hit'', None))"
      by (simp add: is_sunk_def)
    with hit(1,2,4,5,6,8) show ?thesis by auto
  qed
qed

theorem hit_check_effect_witness:
  "reachable demo_state \<and>
   check_hit_homomorphic (players demo_state) Player2 0 0 Player1 7
   = Inr ((''hit'', None),
          (players demo_state)
            (Player2 := (demo_player ''Bob'' 2011 2017)
               \<lparr>hits_received := 1,
                ships := demo_fleet[0 := (demo_fleet ! 0)\<lparr>hits := {(0, 0)}\<rparr>]\<rparr>)) \<and>
   (\<exists>v. decrypted_val (players demo_state Player2) 0 0 7 = Inr v \<and> v \<noteq> 0) \<and>
   (0, 0) \<in> set (coordinates (ships (players demo_state Player2) ! 0))"
  using hit_check_effect [OF demo_reachable _ _ demo_check_hit [of Player1]]
    demo_reachable demo_check_hit [of Player1]
  by (simp add: demo_decrypted demo_fleet_def)

section \<open>Blinding\<close>

text \<open>
  C5 (as amended). At a state that the game loop reaches, two hit checks of the same cell
  with different blinding factors of the sampled range return the same result. Their
  decrypted values differ exactly when the cell holds a ship: on a water cell both are 0.
\<close>

theorem blinding_independence:
  assumes "reachable s" and "r \<le> 9" "c \<le> 9"
    and "1 \<le> k1" "k1 \<le> 999999" "1 \<le> k2" "k2 \<le> 999999" "k1 \<noteq> k2"
    and "public_key (players s d) = Some pk" and "999999 \<le> max_int pk"
  shows "\<exists>v1 v2. decrypted_val (players s d) r c k1 = Inr v1 \<and>
                 decrypted_val (players s d) r c k2 = Inr v2 \<and>
                 (v1 \<noteq> 0 \<longleftrightarrow> v2 \<noteq> 0) \<and>
                 (v1 \<noteq> v2 \<longleftrightarrow> board (players s d) ! r ! c = 1) \<and>
                 (board (players s d) ! r ! c = 0 \<longleftrightarrow> v1 = 0 \<and> v2 = 0) \<and>
                 check_hit_homomorphic (players s) d r c a k1
                   = check_hit_homomorphic (players s) d r c a k2"
proof -
  let ?p = "players s d"
  let ?b = "board ?p ! r ! c"
  from assms(1) have inv: "player_inv ?p" by (rule reachable_player_inv)
  from assms(2,3) have rc: "r < 10" "c < 10" by simp_all
  from assms(4,5,10) have "\<bar>k1\<bar> \<le> max_int pk" by simp
  from decrypted_val_blinded [OF inv rc assms(9) this]
  have v1: "decrypted_val ?p r c k1 = Inr (k1 * ?b)" .
  from assms(6,7,10) have "\<bar>k2\<bar> \<le> max_int pk" by simp
  from decrypted_val_blinded [OF inv rc assms(9) this]
  have v2: "decrypted_val ?p r c k2 = Inr (k2 * ?b)" .
  from player_inv_bit [OF inv rc] have bit: "?b = 0 \<or> ?b = 1" .
  have same: "check_hit_homomorphic (players s) d r c a k1
                = check_hit_homomorphic (players s) d r c a k2"
    using bit assms(4,6) by (auto simp: check_hit_homomorphic_def v1 v2)
  from bit assms(4,6,8) have "(k1 * ?b \<noteq> 0 \<longleftrightarrow> k2 * ?b \<noteq> 0) \<and>
     (k1 * ?b \<noteq> k2 * ?b \<longleftrightarrow> ?b = 1) \<and> (?b = 0 \<longleftrightarrow> k1 * ?b = 0 \<and> k2 * ?b = 0)"
    by auto
  with v1 v2 same show ?thesis by blast
qed

theorem blinding_independence_witness:
  "reachable demo_state \<and>
   public_key (players demo_state Player2) = Some \<lparr>pub_n = 4056187\<rparr> \<and>
   999999 \<le> max_int \<lparr>pub_n = 4056187\<rparr> \<and>
   board (players demo_state Player2) ! 0 ! 0 = 1 \<and>
   decrypted_val (players demo_state Player2) 0 0 7 = Inr 7 \<and>
   decrypted_val (players demo_state Player2) 0 0 8 = Inr 8 \<and>
   check_hit_homomorphic (players demo_state) Player2 0 0 Player1 7
     = check_hit_homomorphic (players demo_state) Player2 0 0 Player1 8"
proof -
  have v: "decrypted_val (players demo_state Player2) 0 0 7 = Inr 7"
    "decrypted_val (players demo_state Player2) 0 0 8 = Inr 8"
    by (simp_all add: decrypted_val_def demo_cipher_def demo_board_def enc_mul_def encode_def
      decrypt_def decode_def max_int_def Let_def)
  from blinding_independence [OF demo_reachable _ _ _ _ _ _ _ demo_keys(2) demo_keys(4),
      of 0 0 7 8 Player1]
  have "check_hit_homomorphic (players demo_state) Player2 0 0 Player1 7
     = check_hit_homomorphic (players demo_state) Player2 0 0 Player1 8"
    by auto
  with v demo_reachable demo_keys(2,4) show ?thesis
    by (simp add: demo_board_cells)
qed

text \<open>
  The claim as stated fails on a water cell: in the sample game the cell (6, 6) of Bob's
  board is water, and the blinding factors 1 and 2 both give the decrypted value 0.
\<close>

theorem blinding_values_counterexample:
  "main_setup (1999, 2003) (2011, 2017) demo_rng = Some (Inr demo_state) \<and>
   board (players demo_state Player2) ! 6 ! 6 = 0 \<and>
   decrypted_val (players demo_state Player2) 6 6 1 = Inr 0 \<and>
   decrypted_val (players demo_state Player2) 6 6 2 = Inr 0"
  by (simp add: demo_main_setup demo_decrypted demo_board_cells)

section \<open>The attacker argument of the hit check\<close>

text \<open>
  C10. The hit check leaves every player object other than the defender as it is, so in
  particular the attacker that \<open>main\<close> passes, which is never the defender; and its result
  and the new value of the defender are the same whatever attacker is passed and whatever
  the other objects of the store hold.
\<close>

theorem hit_check_attacker_frame:
  assumes "a \<noteq> d"
  shows "(\<forall>res st'. check_hit_homomorphic st d r c a k = Inr (res, st') \<longrightarrow> st' a = st a) \<and>
         (\<forall>st2 a2. st2 d = st d \<longrightarrow>
            (case check_hit_homomorphic st2 d r c a2 k of
               Inl e \<Rightarrow> Inl e | Inr (res, st') \<Rightarrow> Inr (res, st' d))
            = (case check_hit_homomorphic st d r c a k of
               Inl e \<Rightarrow> Inl e | Inr (res, st') \<Rightarrow> Inr (res, st' d)))"
proof -
  have one: "st' a = st a" if "check_hit_homomorphic st d r c a k = Inr (res, st')"
    for res st'
    using check_hit_frame(1) [OF that] assms by blast
  have two: "(case check_hit_homomorphic st2 d r c a2 k of
               Inl e \<Rightarrow> Inl e | Inr (res, st') \<Rightarrow> Inr (res, st' d))
            = (case check_hit_homomorphic st d r c a k of
               Inl e \<Rightarrow> Inl e | Inr (res, st') \<Rightarrow> Inr (res, st' d))"
    if "st2 d = st d" for st2 :: store and a2
    using that
    by (simp add: check_hit_homomorphic_def Let_def split: sum.splits prod.splits)
  from one two show ?thesis by blast
qed

theorem hit_check_attacker_frame_witness:
  "Player1 \<noteq> Player2 \<and>
   check_hit_homomorphic (players demo_state) Player2 0 0 Player1 7
   = Inr ((''hit'', None),
          (players demo_state)
            (Player2 := (demo_player ''Bob'' 2011 2017)
               \<lparr>hits_received := 1,
                ships := demo_fleet[0 := (demo_fleet ! 0)\<lparr>hits := {(0, 0)}\<rparr>]\<rparr>)) \<and>
   ((players demo_state)
            (Player2 := (demo_player ''Bob'' 2011 2017)
               \<lparr>hits_received := 1,
                ships := demo_fleet[0 := (demo_fleet ! 0)\<lparr>hits := {(0, 0)}\<rparr>]\<rparr>)) Player1
     = players demo_state Player1"
  using hit_check_attacker_frame [of Player1 Player2 "players demo_state" 0 0 7]
    demo_check_hit [of Player1]
  by simp

section \<open>Ships, losses and repeated guesses along the game\<close>

lemma players_if:
  "players (if b then s1 else s2) = (if b then players s1 else players s2)"
  by simp

lemma check_hit_guess_board:
  assumes "check_hit_homomorphic st d r c a k = Inr (res, st')"
  shows "guess_board (st' x) = guess_board (st x)"
proof (cases "x = d")
  case True
  with check_hit_frame(3) [OF assms] show ?thesis by simp
next
  case False
  with check_hit_frame(1) [OF assms] show ?thesis by simp
qed

text \<open>What an iteration does to the fleets and the hit counters.\<close>

lemma game_turn_ships:
  assumes inv: "game_inv s" and rc: "r \<le> 9" "c \<le> 9"
    and gt: "game_turn s (r, c) k = Inr s'"
  obtains (same) "\<forall>x. ships (players s' x) = ships (players s x)"
      "\<forall>x. hits_received (players s' x) = hits_received (players s x)"
  | (marked) i where "guess_board (players s (current_player s)) ! r ! c = CHR '' ''"
      "i < length (ships (players s (opponent s)))"
      "(r, c) \<in> set (coordinates (ships (players s (opponent s)) ! i))"
      "ships (players s' (opponent s))
         = (ships (players s (opponent s)))
             [i := (ships (players s (opponent s)) ! i)
                \<lparr>hits := insert (r, c) (hits (ships (players s (opponent s)) ! i))\<rparr>]"
      "ships (players s' (current_player s)) = ships (players s (current_player s))"
      "hits_received (players s' (opponent s)) = hits_received (players s (opponent s)) + 1"
      "hits_received (players s' (current_player s))
         = hits_received (players s (current_player s))"
proof -
  note f = game_inv_fields [OF inv]
  let ?cur = "current_player s" and ?opp = "opponent s"
  have o: "?opp = other ?cur" by (rule f(2))
  have ne: "?cur \<noteq> ?opp" by (simp add: o)
  from rc have rc10: "r < 10" "c < 10" by simp_all
  from gt show thesis
  proof (cases rule: game_turn_cases)
    case repeated
    then have "\<forall>x. ships (players s' x) = ships (players s x)"
      "\<forall>x. hits_received (players s' x) = hits_received (players s x)"
      by simp_all
    then show thesis by (rule same)
  next
    case (fresh res st)
    let ?st2 = "st(?cur := set_guess (st ?cur) r c
                  (if fst res = ''hit'' \<or> fst res = ''sunk'' then CHR ''X'' else CHR ''O''))"
    have p: "players s' = ?st2"
      unfolding fresh(3) by (simp only: players_if cong: if_cong) simp
    have sh: "ships (?st2 x) = ships (st x)"
      and hr: "hits_received (?st2 x) = hits_received (st x)" for x
      by (cases "x = ?cur"; simp)+
    from f(1) [of ?opp] rc10 fresh(2) show thesis
    proof (cases rule: check_hit_inv_cases)
      case miss
      with sh hr p have "\<forall>x. ships (players s' x) = ships (players s x)"
        "\<forall>x. hits_received (players s' x) = hits_received (players s x)"
        by simp_all
      then show thesis by (rule same)
    next
      case (hit v i)
      note h = hit
      from hit(8) ne have c: "st ?cur = players s ?cur" by simp
      from hit(8) have
        "ships (st ?opp) = (ships (players s ?opp))
             [i := (ships (players s ?opp) ! i)
                \<lparr>hits := insert (r, c) (hits (ships (players s ?opp) ! i))\<rparr>]"
        "hits_received (st ?opp) = hits_received (players s ?opp) + 1"
        by simp_all
      with c have "ships (players s' ?opp) = (ships (players s ?opp))
             [i := (ships (players s ?opp) ! i)
                \<lparr>hits := insert (r, c) (hits (ships (players s ?opp) ! i))\<rparr>]"
        "ships (players s' ?cur) = ships (players s ?cur)"
        "hits_received (players s' ?opp) = hits_received (players s ?opp) + 1"
        "hits_received (players s' ?cur) = hits_received (players s ?cur)"
        unfolding p sh hr by simp_all
      with fresh(1) hit(4,5) show thesis by (rule marked)
    qed
  qed
qed

lemma reachable_hits_finite:
  assumes "player_inv p" "sh \<in> set (ships p)"
  shows "finite (hits sh)" "card (hits sh) \<le> ship_size sh"
    "card (hits sh) = ship_size sh \<Longrightarrow> hits sh = set (coordinates sh)"
proof -
  from assms have sub: "hits sh \<subseteq> set (coordinates sh)"
    and len: "length (coordinates sh) = ship_size sh"
    by (auto simp: player_inv_def)
  from sub show "finite (hits sh)" by (rule finite_subset) simp
  from sub have "card (hits sh) \<le> card (set (coordinates sh))"
    by (intro card_mono) simp_all
  also have "\<dots> \<le> length (coordinates sh)" by (rule card_length)
  finally show "card (hits sh) \<le> ship_size sh" by (simp add: len)
  show "hits sh = set (coordinates sh)" if "card (hits sh) = ship_size sh"
  proof (rule card_subset_eq [OF _ sub])
    show "finite (set (coordinates sh))" by simp
    have "card (set (coordinates sh)) \<le> card (hits sh)"
      using that len card_length [of "coordinates sh"] by simp
    moreover have "card (hits sh) \<le> card (set (coordinates sh))"
      using sub by (intro card_mono) simp_all
    ultimately show "card (hits sh) = card (set (coordinates sh))" by simp
  qed
qed

text \<open>
  C6. At every state that the game loop reaches, the hits of every ship are among its
  coordinates, and \<open>is_sunk\<close> holds exactly when the number of hits equals the size. In an
  iteration of the loop a ship goes from not sunk to sunk exactly when the guess is added
  to its hits as a new element and the hits then number the size; a sunk ship stays sunk;
  and a guess that is not yet on the guess board is in the hits of no ship of the
  opponent.
\<close>

theorem ship_hits_invariant:
  assumes "reachable s"
  shows "(\<forall>sh \<in> set (ships (players s x)).
            hits sh \<subseteq> set (coordinates sh) \<and> (is_sunk sh \<longleftrightarrow> card (hits sh) = ship_size sh)) \<and>
         (\<forall>r c k s' i. r \<le> 9 \<longrightarrow> c \<le> 9 \<longrightarrow> game_turn s (r, c) k = Inr s' \<longrightarrow>
            i < length (ships (players s x)) \<longrightarrow>
            ((\<not> is_sunk (ships (players s x) ! i) \<and> is_sunk (ships (players s' x) ! i))
              \<longleftrightarrow> ((r, c) \<notin> hits (ships (players s x) ! i) \<and>
                   hits (ships (players s' x) ! i)
                     = insert (r, c) (hits (ships (players s x) ! i)) \<and>
                   card (hits (ships (players s' x) ! i))
                     = ship_size (ships (players s' x) ! i))) \<and>
            (is_sunk (ships (players s x) ! i) \<longrightarrow> is_sunk (ships (players s' x) ! i))) \<and>
         (\<forall>r c. r \<le> 9 \<longrightarrow> c \<le> 9 \<longrightarrow>
            guess_board (players s (current_player s)) ! r ! c = CHR '' '' \<longrightarrow>
            (\<forall>sh \<in> set (ships (players s (opponent s))). (r, c) \<notin> hits sh))"
proof -
  from assms have inv: "game_inv s" by (rule reachable_inv)
  note f = game_inv_fields [OF inv]
  have o: "opponent s = other (current_player s)" by (rule f(2))
  have one: "\<forall>sh \<in> set (ships (players s x)).
            hits sh \<subseteq> set (coordinates sh) \<and> (is_sunk sh \<longleftrightarrow> card (hits sh) = ship_size sh)"
    using f(1) [of x] by (simp add: player_inv_def is_sunk_def)
  have two: "((\<not> is_sunk (ships (players s x) ! i) \<and> is_sunk (ships (players s' x) ! i))
              \<longleftrightarrow> ((r, c) \<notin> hits (ships (players s x) ! i) \<and>
                   hits (ships (players s' x) ! i)
                     = insert (r, c) (hits (ships (players s x) ! i)) \<and>
                   card (hits (ships (players s' x) ! i))
                     = ship_size (ships (players s' x) ! i))) \<and>
            (is_sunk (ships (players s x) ! i) \<longrightarrow> is_sunk (ships (players s' x) ! i))"
    if rc: "r \<le> 9" "c \<le> 9" and gt: "game_turn s (r, c) k = Inr s'"
      and i: "i < length (ships (players s x))" for r c k s' i
    using inv rc gt
  proof (cases rule: game_turn_ships)
    case same
    then have "ships (players s' x) = ships (players s x)" by simp
    then show ?thesis by auto
  next
    case (marked j)
    let ?fleet = "ships (players s (opponent s))"
    show ?thesis
    proof (cases "x = opponent s \<and> i = j")
      case True
      let ?old = "?fleet ! j"
      from True marked(2,4) have new: "ships (players s' x) ! i
          = ?old\<lparr>hits := insert (r, c) (hits ?old)\<rparr>"
        by simp
      from marked(2) have mem: "?old \<in> set ?fleet" by simp
      note fin = reachable_hits_finite [OF f(1) [of "opponent s"] mem]
      from True have old: "ships (players s x) ! i = ?old" by simp
      have full: "(r, c) \<in> hits ?old" if "card (hits ?old) = ship_size ?old"
        using fin(3) [OF that] marked(3) by simp
      show ?thesis
        unfolding new old using fin(1) full
        by (auto simp: is_sunk_def card_insert_if)
    next
      case False
      have "ships (players s' x) ! i = ships (players s x) ! i"
      proof (cases "x = opponent s")
        case True
        with False marked(4) show ?thesis by simp
      next
        case False
        with pref_cases [of x "current_player s"] o have "x = current_player s" by simp
        with marked(5) show ?thesis by simp
      qed
      then show ?thesis by auto
    qed
  qed
  have three: "(r, c) \<notin> hits sh"
    if "guess_board (players s (current_player s)) ! r ! c = CHR '' ''"
      and "sh \<in> set (ships (players s (opponent s)))" for r c sh
  proof
    assume "(r, c) \<in> hits sh"
    from f(5) [OF that(2) this] that(1) o show False by simp
  qed
  from one two three show ?thesis by blast
qed

subsection \<open>Three more iterations of the sample game\<close>

lemma decrypted_val_hit_update [simp]:
  "decrypted_val (p\<lparr>hits_received := n, ships := f\<rparr>) r c k = decrypted_val p r c k"
  by (simp add: decrypted_val_def cong: option.case_cong sum.case_cong)

lemma demo_decrypted_more:
  "decrypted_val (demo_player ''Bob'' 2011 2017) 8 9 5 = Inr 5"
  "decrypted_val (demo_player ''Alice'' 1999 2003) 7 7 11 = Inr 0"
  "decrypted_val (demo_player ''Bob'' 2011 2017) 9 9 2 = Inr 2"
  by (simp_all add: decrypted_val_def demo_cipher_def demo_board_def enc_mul_def encode_def
      decrypt_def decode_def max_int_def Let_def)

lemma demo_turn3: "game_turn demo_state2 (8, 9) 5 = Inr demo_state3"
  by (simp add: game_turn_def Let_def replicate10 check_hit_homomorphic_def
      demo_decrypted_more demo_fleet_def is_sunk_def has_lost_def demo_state3_def
      numeral_2_eq_2)

lemma demo_state3_simps [simp]:
  "players demo_state3 Player1
     = set_guess (set_guess (demo_player ''Alice'' 1999 2003) 0 0 CHR ''X'') 8 9 CHR ''X''"
  "players demo_state3 Player2
     = (set_guess ((demo_player ''Bob'' 2011 2017)
               \<lparr>hits_received := 1,
                ships := demo_fleet[0 := (demo_fleet ! 0)\<lparr>hits := {(0, 0)}\<rparr>]\<rparr>) 6 6 CHR ''O'')
         \<lparr>hits_received := 2,
          ships := demo_fleet[0 := (demo_fleet ! 0)\<lparr>hits := {(0, 0)}\<rparr>,
                              4 := (demo_fleet ! 4)\<lparr>hits := {(8, 9)}\<rparr>]\<rparr>"
  "turn demo_state3 = 3" "game_over demo_state3 = False"
  "current_player demo_state3 = Player2" "opponent demo_state3 = Player1"
  by (simp_all add: demo_state3_def demo_fleet_def)

lemma demo_turn4: "game_turn demo_state3 (7, 7) 11 = Inr demo_state4"
  by (simp add: game_turn_def Let_def replicate10 check_hit_homomorphic_def
      demo_decrypted_more has_lost_def demo_state4_def)

lemma demo_state4_simps [simp]:
  "players demo_state4 Player1
     = set_guess (set_guess (demo_player ''Alice'' 1999 2003) 0 0 CHR ''X'') 8 9 CHR ''X''"
  "players demo_state4 Player2
     = set_guess ((set_guess ((demo_player ''Bob'' 2011 2017)
               \<lparr>hits_received := 1,
                ships := demo_fleet[0 := (demo_fleet ! 0)\<lparr>hits := {(0, 0)}\<rparr>]\<rparr>) 6 6 CHR ''O'')
         \<lparr>hits_received := 2,
          ships := demo_fleet[0 := (demo_fleet ! 0)\<lparr>hits := {(0, 0)}\<rparr>,
                              4 := (demo_fleet ! 4)\<lparr>hits := {(8, 9)}\<rparr>]\<rparr>) 7 7 CHR ''O''"
  "turn demo_state4 = 4" "game_over demo_state4 = False"
  "current_player demo_state4 = Player1" "opponent demo_state4 = Player2"
  by (simp_all add: demo_state4_def)

lemma demo_turn5: "game_turn demo_state4 (9, 9) 2 = Inr demo_state5"
  by (simp add: game_turn_def Let_def replicate10 check_hit_homomorphic_def
      demo_decrypted_more demo_fleet_def is_sunk_def has_lost_def demo_state5_def
      numeral_3_eq_3)

lemma demo_reachable3: "reachable demo_state3"
  by (rule reachable.next_turn [OF demo_reachable2 _ _ _ _ _ demo_turn3]) simp_all

lemma demo_reachable4: "reachable demo_state4"
  by (rule reachable.next_turn [OF demo_reachable3 _ _ _ _ _ demo_turn4]) simp_all

lemma demo_reachable5: "reachable demo_state5"
  by (rule reachable.next_turn [OF demo_reachable4 _ _ _ _ _ demo_turn5]) simp_all

lemma demo_destroyer:
  "ships (players demo_state4 Player2) ! 4
     = \<lparr>ship_name = ''Destroyer'', ship_size = 2, coordinates = [(8, 9), (9, 9)],
        hits = {(8, 9)}\<rparr>"
  "ships (players demo_state5 Player2) ! 4
     = \<lparr>ship_name = ''Destroyer'', ship_size = 2, coordinates = [(8, 9), (9, 9)],
        hits = {(9, 9), (8, 9)}\<rparr>"
  by (simp_all add: demo_state5_def demo_fleet_def)

theorem ship_hits_invariant_witness:
  "reachable demo_state4 \<and> game_turn demo_state4 (9, 9) 2 = Inr demo_state5 \<and>
   \<not> is_sunk (ships (players demo_state4 Player2) ! 4) \<and>
   is_sunk (ships (players demo_state5 Player2) ! 4) \<and>
   (9, 9) \<notin> hits (ships (players demo_state4 Player2) ! 4) \<and>
   hits (ships (players demo_state5 Player2) ! 4)
     = insert (9, 9) (hits (ships (players demo_state4 Player2) ! 4)) \<and>
   card (hits (ships (players demo_state5 Player2) ! 4))
     = ship_size (ships (players demo_state5 Player2) ! 4)"
proof -
  have len: "4 < length (ships (players demo_state4 Player2))"
    by (simp add: demo_fleet_def)
  have sunk: "is_sunk (ships (players demo_state5 Player2) ! 4)"
    "\<not> is_sunk (ships (players demo_state4 Player2) ! 4)"
    unfolding demo_destroyer by (simp_all add: is_sunk_def)
  from ship_hits_invariant [OF demo_reachable4, of Player2] demo_turn5 len sunk
  have "(9, 9) \<notin> hits (ships (players demo_state4 Player2) ! 4) \<and>
   hits (ships (players demo_state5 Player2) ! 4)
     = insert (9, 9) (hits (ships (players demo_state4 Player2) ! 4)) \<and>
   card (hits (ships (players demo_state5 Player2) ! 4))
     = ship_size (ships (players demo_state5 Player2) ! 4)"
    by (metis order_refl)
  with demo_reachable4 demo_turn5 sunk show ?thesis by blast
qed

lemma check_hit_returns:
  assumes "player_inv (st d)" "r < 10" "c < 10" "public_key (st d) = Some pk"
    "\<bar>k\<bar> \<le> max_int pk"
  shows "\<exists>res st'. check_hit_homomorphic st d r c a k = Inr (res, st')"
proof -
  from decrypted_val_blinded [OF assms]
  have "decrypted_val (st d) r c k = Inr (k * board (st d) ! r ! c)" .
  then show ?thesis
    by (simp add: check_hit_homomorphic_def Let_def split: prod.splits)
qed

text \<open>
  C7. \<open>has_lost\<close> holds of a player exactly when \<open>hits_received\<close> is at least
  \<open>total_ship_cells\<close>, which is 16 for the player that \<open>Player\<close> creates and for every
  player of a state that the game loop reaches. At such a state \<open>hits_received\<close> never
  exceeds 16, so \<open>has_lost\<close> holds exactly when it equals 16; it does not hold while the
  game is not over; and an iteration of the loop leaves the counter as it is or increments
  it by 1, so a player that has lost after an iteration had 15 hits before it.
\<close>

theorem loss_condition:
  "(has_lost p \<longleftrightarrow> hits_received p \<ge> total_ship_cells p) \<and>
   total_ship_cells (Player name) = 16 \<and>
   (reachable s \<longrightarrow>
      total_ship_cells (players s x) = 16 \<and>
      (has_lost (players s x) \<longleftrightarrow> hits_received (players s x) \<ge> 16) \<and>
      (has_lost (players s x) \<longleftrightarrow> hits_received (players s x) = 16) \<and>
      (has_lost (players s x) \<longrightarrow> game_over s) \<and>
      (\<forall>r c k s'. \<not> game_over s \<longrightarrow> r \<le> 9 \<longrightarrow> c \<le> 9 \<longrightarrow> 1 \<le> k \<longrightarrow> k \<le> 999999 \<longrightarrow>
          game_turn s (r, c) k = Inr s' \<longrightarrow>
          (hits_received (players s' x) = hits_received (players s x) \<or>
           hits_received (players s' x) = hits_received (players s x) + 1) \<and>
          (has_lost (players s' x) \<longleftrightarrow> hits_received (players s' x) = 16) \<and>
          (has_lost (players s' x) \<longrightarrow> hits_received (players s x) = 15)))"
proof -
  have contract: "has_lost p \<longleftrightarrow> hits_received p \<ge> total_ship_cells p"
    by (simp add: has_lost_def)
  have created: "total_ship_cells (Player name) = 16"
    by (simp add: Player_def Ship_def)
  have along: "total_ship_cells (players s x) = 16 \<and>
      (has_lost (players s x) \<longleftrightarrow> hits_received (players s x) \<ge> 16) \<and>
      (has_lost (players s x) \<longleftrightarrow> hits_received (players s x) = 16) \<and>
      (has_lost (players s x) \<longrightarrow> game_over s) \<and>
      (\<forall>r c k s'. \<not> game_over s \<longrightarrow> r \<le> 9 \<longrightarrow> c \<le> 9 \<longrightarrow> 1 \<le> k \<longrightarrow> k \<le> 999999 \<longrightarrow>
          game_turn s (r, c) k = Inr s' \<longrightarrow>
          (hits_received (players s' x) = hits_received (players s x) \<or>
           hits_received (players s' x) = hits_received (players s x) + 1) \<and>
          (has_lost (players s' x) \<longleftrightarrow> hits_received (players s' x) = 16) \<and>
          (has_lost (players s' x) \<longrightarrow> hits_received (players s x) = 15))"
    if reach: "reachable s"
  proof -
    from reach have inv: "game_inv s" by (rule reachable_inv)
    note f = game_inv_fields [OF inv]
    have o: "opponent s = other (current_player s)" by (rule f(2))
    have total: "total_ship_cells (players s x) = 16"
      using f(1) [of x] by (rule player_inv_total)
    have le: "hits_received (players s x) \<le> 16" by (rule f(3))
    have lost: "has_lost (players s x) \<longleftrightarrow> hits_received (players s x) = 16"
      using le by (auto simp: has_lost_def total)
    have over: "has_lost (players s x) \<longrightarrow> game_over s"
      using f(4) [of x] lost by (cases "game_over s") auto
    have step: "(hits_received (players s' x) = hits_received (players s x) \<or>
               hits_received (players s' x) = hits_received (players s x) + 1) \<and>
              (has_lost (players s' x) \<longleftrightarrow> hits_received (players s' x) = 16) \<and>
              (has_lost (players s' x) \<longrightarrow> hits_received (players s x) = 15)"
      if go: "\<not> game_over s" and rc: "r \<le> 9" "c \<le> 9" and k: "1 \<le> k" "k \<le> 999999"
        and gt: "game_turn s (r, c) k = Inr s'" for r c k s'
    proof -
      from reach go rc k gt have "reachable s'" by (rule reachable.next_turn)
      then have inv': "game_inv s'" by (rule reachable_inv)
      have total': "total_ship_cells (players s' x) = 16"
        using game_inv_fields(1) [OF inv', of x] by (rule player_inv_total)
      have lost': "has_lost (players s' x) \<longleftrightarrow> hits_received (players s' x) = 16"
        using game_inv_fields(3) [OF inv', of x] by (auto simp: has_lost_def total')
      have lt: "hits_received (players s x) < 16" using f(4) [OF go] .
      from inv rc gt
      have cnt: "hits_received (players s' x) = hits_received (players s x) \<or>
                 hits_received (players s' x) = hits_received (players s x) + 1"
      proof (cases rule: game_turn_ships)
        case same
        then show ?thesis by simp
      next
        case (marked i)
        from pref_cases [of x "current_player s"] o
        have "x = current_player s \<or> x = opponent s" by simp
        with marked(6,7) show ?thesis by auto
      qed
      with lost' lt show ?thesis by auto
    qed
    from lost le
    have "has_lost (players s x) \<longleftrightarrow> hits_received (players s x) \<ge> 16" by auto
    with total lost over step show ?thesis by blast
  qed
  from contract created along show ?thesis by blast
qed

section \<open>Repeated guesses\<close>

text \<open>
  C8. At a state that the game loop reaches, a guess at a cell that is not blank on the
  guess board of the current player ends the iteration at once: the new state is the old
  one with only the counter \<open>turn\<close> incremented, whatever the blinding factor would have
  been, so no fleet, no hit counter and no guess board changes and the same player guesses
  again. A guess at a blank cell sets the entry: after the iteration it is \<open>O\<close> if the
  decrypted value of the hit check is 0 and \<open>X\<close> otherwise, and with a blinding factor
  of the sampled range and a key of the library's size the iteration does return. In
  every iteration a guess-board entry that is not blank keeps its value, and the only
  entry that can change is that of the guess on the board of the current player; so an
  entry is set exactly once, by the first guess at it.
\<close>

theorem repeated_guess:
  assumes "reachable s" and "r \<le> 9" "c \<le> 9"
  shows "(guess_board (players s (current_player s)) ! r ! c \<noteq> CHR '' '' \<longrightarrow>
            game_turn s (r, c) k = Inr (s\<lparr>turn := turn s + 1\<rparr>)) \<and>
         (\<forall>s'. guess_board (players s (current_player s)) ! r ! c = CHR '' '' \<longrightarrow>
            game_turn s (r, c) k = Inr s' \<longrightarrow>
            (\<exists>v. decrypted_val (players s (opponent s)) r c k = Inr v \<and>
                 guess_board (players s' (current_player s)) ! r ! c
                   = (if v = 0 then CHR ''O'' else CHR ''X''))) \<and>
         (\<forall>pk. 1 \<le> k \<longrightarrow> k \<le> 999999 \<longrightarrow>
            public_key (players s (opponent s)) = Some pk \<longrightarrow> 999999 \<le> max_int pk \<longrightarrow>
            (\<exists>s'. game_turn s (r, c) k = Inr s')) \<and>
         (\<forall>s' x r' c'. game_turn s (r, c) k = Inr s' \<longrightarrow> r' \<le> 9 \<longrightarrow> c' \<le> 9 \<longrightarrow>
            (guess_board (players s x) ! r' ! c' \<noteq> CHR '' '' \<longrightarrow>
               guess_board (players s' x) ! r' ! c' = guess_board (players s x) ! r' ! c') \<and>
            (guess_board (players s' x) ! r' ! c' \<noteq> guess_board (players s x) ! r' ! c' \<longrightarrow>
               x = current_player s \<and> r' = r \<and> c' = c \<and>
               guess_board (players s x) ! r' ! c' = CHR '' '' \<and>
               (guess_board (players s' x) ! r' ! c' = CHR ''X'' \<or>
                guess_board (players s' x) ! r' ! c' = CHR ''O'')))"
proof -
  let ?cur = "current_player s" and ?opp = "opponent s"
  from assms(1) have wf: "wf_grid (guess_board (players s x))" for x
    by (intro player_inv_guess reachable_player_inv)
  from assms(1) have pinv: "player_inv (players s x)" for x by (rule reachable_player_inv)
  from assms(2,3) have rc: "r < 10" "c < 10" by simp_all
  from wf [of ?cur] rc have len: "r < length (guess_board (players s ?cur))"
    "c < length (guess_board (players s ?cur) ! r)"
    by (simp_all add: wf_grid_def)
  have one: "game_turn s (r, c) k = Inr (s\<lparr>turn := turn s + 1\<rparr>)"
    if "guess_board (players s ?cur) ! r ! c \<noteq> CHR '' ''"
    using len that by (rule game_turn_repeated)
  have entry: "guess_board (players s' x) ! r' ! c'
          = (if x = ?cur \<and> (r', c') = (r, c)
             then (if fst res = ''hit'' \<or> fst res = ''sunk'' then CHR ''X'' else CHR ''O'')
             else guess_board (players s x) ! r' ! c')"
    if ch: "check_hit_homomorphic (players s) ?opp r c ?cur k = Inr (res, st)"
      and s': "s' = (if has_lost
                  ((st(?cur := set_guess (st ?cur) r c
                           (if fst res = ''hit'' \<or> fst res = ''sunk'' then CHR ''X''
                            else CHR ''O''))) ?opp)
             then s\<lparr>turn := turn s + 1,
                    players := st(?cur := set_guess (st ?cur) r c
                           (if fst res = ''hit'' \<or> fst res = ''sunk'' then CHR ''X''
                            else CHR ''O'')),
                    game_over := True\<rparr>
             else s\<lparr>turn := turn s + 1,
                    players := st(?cur := set_guess (st ?cur) r c
                           (if fst res = ''hit'' \<or> fst res = ''sunk'' then CHR ''X''
                            else CHR ''O'')),
                    current_player := ?opp, opponent := ?cur\<rparr>)"
      and rc': "r' < 10" "c' < 10"
    for res st s' x r' c'
  proof -
    let ?ch = "if fst res = ''hit'' \<or> fst res = ''sunk'' then CHR ''X'' else CHR ''O''"
    let ?st2 = "st(?cur := set_guess (st ?cur) r c ?ch)"
    have p: "players s' = ?st2"
      unfolding s' by (simp only: players_if cong: if_cong) simp
    note gb = check_hit_guess_board [OF ch]
    show ?thesis
    proof (cases "x = ?cur")
      case False
      then have "guess_board (players s' x) = guess_board (players s x)"
        unfolding p by (simp add: gb)
      with False show ?thesis by simp
    next
      case True
      have "guess_board (players s' x)
          = (guess_board (players s ?cur))[r := (guess_board (players s ?cur) ! r)[c := ?ch]]"
        unfolding p True by (simp add: gb)
      then have "guess_board (players s' x) ! r' ! c'
          = (if (r', c') = (r, c) then ?ch else guess_board (players s ?cur) ! r' ! c')"
        using grid_update_nth [OF wf [of ?cur] rc rc', of ?ch] by simp
      with True show ?thesis by simp
    qed
  qed
  have two: "\<exists>v. decrypted_val (players s ?opp) r c k = Inr v \<and>
                 guess_board (players s' ?cur) ! r ! c
                   = (if v = 0 then CHR ''O'' else CHR ''X'')"
    if blank: "guess_board (players s ?cur) ! r ! c = CHR '' ''"
      and gt: "game_turn s (r, c) k = Inr s'" for s'
    using gt
  proof (cases rule: game_turn_cases)
    case repeated
    with blank show ?thesis by simp
  next
    case (fresh res st)
    note e = entry [OF fresh(2,3) rc, of ?cur]
    from pinv [of ?opp] rc fresh(2) show ?thesis
    proof (cases rule: check_hit_inv_cases)
      case miss
      with e show ?thesis by simp
    next
      case (hit v i)
      from hit(7) have "fst res = ''hit'' \<or> fst res = ''sunk''" by (simp split: if_splits)
      with e hit(1,2) show ?thesis by simp
    qed
  qed
  have three: "\<exists>s'. game_turn s (r, c) k = Inr s'"
    if k: "1 \<le> k" "k \<le> 999999" and pk: "public_key (players s ?opp) = Some pk"
      and m: "999999 \<le> max_int pk" for pk
  proof (cases "guess_board (players s ?cur) ! r ! c = CHR '' ''")
    case False
    with one show ?thesis by blast
  next
    case True
    from k m have "\<bar>k\<bar> \<le> max_int pk" by simp
    from check_hit_returns [where st = "players s" and d = ?opp and a = ?cur,
        OF pinv [of ?opp] rc pk this] obtain res st where
      "check_hit_homomorphic (players s) ?opp r c ?cur k = Inr (res, st)" by blast
    then show ?thesis
      unfolding game_turn_fresh [OF len True, of k]
      by (simp add: Let_def)
  qed
  have four: "(guess_board (players s x) ! r' ! c' \<noteq> CHR '' '' \<longrightarrow>
               guess_board (players s' x) ! r' ! c' = guess_board (players s x) ! r' ! c') \<and>
            (guess_board (players s' x) ! r' ! c' \<noteq> guess_board (players s x) ! r' ! c' \<longrightarrow>
               x = ?cur \<and> r' = r \<and> c' = c \<and>
               guess_board (players s x) ! r' ! c' = CHR '' '' \<and>
               (guess_board (players s' x) ! r' ! c' = CHR ''X'' \<or>
                guess_board (players s' x) ! r' ! c' = CHR ''O''))"
    if gt: "game_turn s (r, c) k = Inr s'" and rc': "r' \<le> 9" "c' \<le> 9" for s' x r' c'
    using gt
  proof (cases rule: game_turn_cases)
    case repeated
    then show ?thesis by simp
  next
    case (fresh res st)
    from rc' have "r' < 10" "c' < 10" by simp_all
    from entry [OF fresh(2,3) this, of x] fresh(1) show ?thesis by auto
  qed
  from one two three four show ?thesis by blast
qed

theorem repeated_guess_witness:
  "reachable demo_state3 \<and>
   guess_board (players demo_state3 (current_player demo_state3)) ! 6 ! 6 = CHR ''O'' \<and>
   game_turn demo_state3 (6, 6) 5 = Inr (demo_state3\<lparr>turn := 4\<rparr>) \<and>
   current_player (demo_state3\<lparr>turn := 4\<rparr>) = current_player demo_state3 \<and>
   players (demo_state3\<lparr>turn := 4\<rparr>) = players demo_state3 \<and>
   reachable demo_state1 \<and>
   guess_board (players demo_state1 (current_player demo_state1)) ! 6 ! 6 = CHR '' '' \<and>
   game_turn demo_state1 (6, 6) 3 = Inr demo_state2 \<and>
   decrypted_val (players demo_state1 (opponent demo_state1)) 6 6 3 = Inr 0 \<and>
   guess_board (players demo_state2 (current_player demo_state1)) ! 6 ! 6 = CHR ''O''"
proof -
  have g: "guess_board (players demo_state3 (current_player demo_state3)) ! 6 ! 6 = CHR ''O''"
    by (simp add: replicate10)
  have le: "(6::nat) \<le> 9" by simp
  from repeated_guess [OF demo_reachable3 le le, of 5] g
  have rep: "game_turn demo_state3 (6, 6) 5 = Inr (demo_state3\<lparr>turn := 4\<rparr>)"
    by simp
  have b: "guess_board (players demo_state1 (current_player demo_state1)) ! 6 ! 6 = CHR '' ''"
    by (simp add: replicate10)
  have v: "decrypted_val (players demo_state1 (opponent demo_state1)) 6 6 3 = Inr 0"
    by (simp add: demo_decrypted)
  from repeated_guess [OF demo_reachable1 le le, of 3] b demo_turn2
  have "\<exists>v. decrypted_val (players demo_state1 (opponent demo_state1)) 6 6 3 = Inr v \<and>
            guess_board (players demo_state2 (current_player demo_state1)) ! 6 ! 6
              = (if v = 0 then CHR ''O'' else CHR ''X'')"
    by blast
  with v have set: "guess_board (players demo_state2 (current_player demo_state1)) ! 6 ! 6
      = CHR ''O''"
    by auto
  from demo_reachable3 g rep demo_reachable1 b demo_turn2 v set show ?thesis by simp
qed

section \<open>The sample game played to its end\<close>

lemma game_loop_reachable:
  assumes "reachable s"
    and "list_all (\<lambda>((r, c), k). r \<le> 9 \<and> c \<le> 9 \<and> 1 \<le> k \<and> k \<le> 999999) inputs"
    and "game_loop s inputs = Inr s'"
  shows "reachable s'"
  using assms
proof (induction inputs arbitrary: s)
  case Nil
  then show ?case by simp
next
  case (Cons m inputs)
  obtain r c k where m: "m = ((r, c), k)" by (cases m) auto
  show ?case
  proof (cases "game_over s")
    case True
    with Cons.prems(1,3) show ?thesis by (simp add: m)
  next
    case False
    with Cons.prems(3) obtain s1 where gt: "game_turn s (r, c) k = Inr s1"
      and rest: "game_loop s1 inputs = Inr s'"
      by (auto simp: m split: sum.splits)
    from Cons.prems(2) have rg: "r \<le> 9" "c \<le> 9" "1 \<le> k" "k \<le> 999999"
      and all: "list_all (\<lambda>((r, c), k). r \<le> 9 \<and> c \<le> 9 \<and> 1 \<le> k \<and> k \<le> 999999) inputs"
      by (simp_all add: m)
    from Cons.prems(1) False rg gt have "reachable s1" by (rule reachable.next_turn)
    from Cons.IH [OF this all rest] show ?thesis .
  qed
qed

lemma store_eq_iff: "(st = st') = (st Player1 = st' Player1 \<and> st Player2 = st' Player2)"
proof
  assume "st Player1 = st' Player1 \<and> st Player2 = st' Player2"
  then have "st x = st' x" for x by (cases x) simp_all
  then show "st = st'" by (simp add: fun_eq_iff)
qed simp

lemma demo_game: "game_loop demo_state demo_moves = Inr demo_state30"
  by (simp add: demo_moves_def game_turn_def Let_def replicate10 check_hit_homomorphic_def
      decrypted_val_def demo_cipher_def demo_board_def enc_mul_def encode_def
      decrypt_def decode_def max_int_def demo_fleet_def is_sunk_def has_lost_def
      demo_state30_def store_eq_iff set_guess_def)

lemma demo_reachable30: "reachable demo_state30"
  by (rule game_loop_reachable [OF demo_reachable _ demo_game]) (simp add: demo_moves_def)

lemma demo_state30_simps:
  "hits_received (players demo_state30 Player2) = 15"
  "total_ship_cells (players demo_state30 Player2) = 16"
  "game_over demo_state30 = False" "turn demo_state30 = 30"
  "current_player demo_state30 = Player1" "opponent demo_state30 = Player2"
  by (simp_all add: demo_state30_def)

lemma demo_turn31: "game_turn demo_state30 (9, 9) 15007 = Inr demo_state31"
  by (simp add: game_turn_def Let_def check_hit_homomorphic_def
      decrypted_val_def demo_cipher_def demo_board_def enc_mul_def encode_def
      decrypt_def decode_def max_int_def is_sunk_def has_lost_def
      demo_state30_def demo_state31_def store_eq_iff set_guess_def)

lemma demo_state31_simps:
  "hits_received (players demo_state31 Player2) = 16"
  "game_over demo_state31 = True" "turn demo_state31 = 31"
  "current_player demo_state31 = Player1"
  by (simp_all add: demo_state31_def demo_state30_def)

theorem loss_condition_witness:
  "has_lost ((Player ''Bob'')\<lparr>hits_received := 17\<rparr>) \<and>
   \<not> has_lost ((Player ''Bob'')\<lparr>hits_received := 15\<rparr>) \<and>
   total_ship_cells (Player ''Bob'') = 16 \<and>
   reachable demo_state30 \<and> \<not> game_over demo_state30 \<and>
   hits_received (players demo_state30 Player2) = 15 \<and>
   \<not> has_lost (players demo_state30 Player2) \<and>
   game_turn demo_state30 (9, 9) 15007 = Inr demo_state31 \<and>
   hits_received (players demo_state31 Player2) = 16 \<and>
   has_lost (players demo_state31 Player2) \<and> game_over demo_state31"
proof -
  note a = loss_condition [where p = "(Player ''Bob'')\<lparr>hits_received := 17\<rparr>"
      and name = "''Bob''" and s = demo_state30 and x = Player2]
  note b = loss_condition [where p = "(Player ''Bob'')\<lparr>hits_received := 15\<rparr>"
      and name = "''Bob''" and s = demo_state30 and x = Player2]
  from a have t: "total_ship_cells (Player ''Bob'') = 16" by blast
  have t': "total_ship_cells ((Player ''Bob'')\<lparr>hits_received := n\<rparr>) = 16" for n
    using t by simp
  from a have "has_lost ((Player ''Bob'')\<lparr>hits_received := 17\<rparr>)
      \<longleftrightarrow> hits_received ((Player ''Bob'')\<lparr>hits_received := 17\<rparr>)
            \<ge> total_ship_cells ((Player ''Bob'')\<lparr>hits_received := 17\<rparr>)"
    by blast
  then have l17: "has_lost ((Player ''Bob'')\<lparr>hits_received := 17\<rparr>)"
    by (simp add: t')
  from b have "has_lost ((Player ''Bob'')\<lparr>hits_received := 15\<rparr>)
      \<longleftrightarrow> hits_received ((Player ''Bob'')\<lparr>hits_received := 15\<rparr>)
            \<ge> total_ship_cells ((Player ''Bob'')\<lparr>hits_received := 15\<rparr>)"
    by blast
  then have l15: "\<not> has_lost ((Player ''Bob'')\<lparr>hits_received := 15\<rparr>)"
    by (simp add: t')
  from a demo_reachable30
  have "has_lost (players demo_state30 Player2)
          \<longleftrightarrow> hits_received (players demo_state30 Player2) = 16"
    by blast
  then have n30: "\<not> has_lost (players demo_state30 Player2)"
    by (simp add: demo_state30_simps)
  from a demo_reachable30
  have "\<not> game_over demo_state30 \<longrightarrow> (9::nat) \<le> 9 \<longrightarrow> (9::nat) \<le> 9 \<longrightarrow>
      (1::int) \<le> 15007 \<longrightarrow> (15007::int) \<le> 999999 \<longrightarrow>
      game_turn demo_state30 (9, 9) 15007 = Inr demo_state31 \<longrightarrow>
      (has_lost (players demo_state31 Player2)
         \<longleftrightarrow> hits_received (players demo_state31 Player2) = 16)"
    by blast
  with demo_turn31 have l31: "has_lost (players demo_state31 Player2)"
    by (simp add: demo_state30_simps demo_state31_simps)
  from l17 l15 t demo_reachable30 n30 demo_turn31 l31 show ?thesis
    by (simp add: demo_state30_simps demo_state31_simps)
qed

end
